theory Spec2Isabelle
  imports Complex_Main
begin

section \<open>Data model (src/enums/Snake.ts)\<close>

datatype CellType = EMPTY | SNAKE | FOOD | AI_SNAKE | USER_SNAKE

datatype Direction = UP | DOWN | LEFT | RIGHT

text \<open>
  \<^verbatim>\<open>type Coord = { row: number; col: number; type: CellType }\<close>.
  The two-player page declares a \<open>CellType\<close> enum of its own, so the tag is a type
  parameter of the record. Coordinates are JavaScript numbers that only ever hold
  integers here; they are modelled as \<open>int\<close>.
\<close>

record 't Coord =
  row :: int
  col :: int
  type :: 't

text \<open>The enum of the two-player page (its \<open>EMPTY\<close> and \<open>FOOD\<close> are renamed).\<close>

datatype CellTypeTwo = EMPTY_TWO | PLAYER_ONE | PLAYER_TWO | FOOD_TWO

text \<open>A JavaScript \<open>TypeError\<close> (reading a property of \<open>undefined\<close>).\<close>

datatype error = TypeError

section \<open>Movement shared by the pages\<close>

text \<open>
  The \<open>switch (direction)\<close> that computes the new head: a copy of the head with the
  given tag, moved by one cell. The \<open>default\<close> branch is unreachable for the four
  values of the enum.
\<close>

fun advance :: "'t Coord \<Rightarrow> Direction \<Rightarrow> 't \<Rightarrow> 't Coord" where
  "advance head UP t = head\<lparr>type := t, row := row head - 1\<rparr>"
| "advance head DOWN t = head\<lparr>type := t, row := row head + 1\<rparr>"
| "advance head LEFT t = head\<lparr>type := t, col := col head - 1\<rparr>"
| "advance head RIGHT t = head\<lparr>type := t, col := col head + 1\<rparr>"

text \<open>\<open>snake.some(s => s.row === r && s.col === c)\<close>\<close>

definition occupies :: "'t Coord list \<Rightarrow> int \<Rightarrow> int \<Rightarrow> bool" where
  "occupies body r c = list_ex (\<lambda>s. row s = r \<and> col s = c) body"

text \<open>The wall test \<open>r < 0 || r >= I || c < 0 || c >= J\<close>.\<close>

definition hitsWall :: "int \<Rightarrow> int \<Rightarrow> 't Coord \<Rightarrow> bool" where
  "hitsWall I J newHead =
     (row newHead < 0 \<or> row newHead \<ge> I \<or> col newHead < 0 \<or> col newHead \<ge> J)"

text \<open>\<open>food !== null && newHead.row === food.row && newHead.col === food.col\<close>\<close>

definition ateFood :: "'t Coord \<Rightarrow> 'u Coord option \<Rightarrow> bool" where
  "ateFood newHead fd =
     (case fd of None \<Rightarrow> False | Some f \<Rightarrow> row newHead = row f \<and> col newHead = col f)"

section \<open>The two-player page: \<open>moveSnake\<close>\<close>

definition BOARD_ROWS :: int where "BOARD_ROWS = 20"
definition BOARD_COLS :: int where "BOARD_COLS = 20"

text \<open>
  \<open>moveSnake(snake, direction, selfType)\<close> reads the component's \<open>food\<close>; it is a
  parameter here. \<open>None\<close> is the \<open>null\<close> returned on a collision.
\<close>

definition moveSnake ::
  "CellTypeTwo Coord option \<Rightarrow> CellTypeTwo Coord list \<Rightarrow> Direction \<Rightarrow> CellTypeTwo
     \<Rightarrow> CellTypeTwo Coord list option" where
  "moveSnake fd body direction selfType =
     (case body of
        [] \<Rightarrow> Some body
      | head # _ \<Rightarrow>
          let newHead = advance head direction selfType in
          if hitsWall BOARD_ROWS BOARD_COLS newHead then None
          else if occupies body (row newHead) (col newHead) then None
          else if ateFood newHead fd then Some (newHead # body)
          else Some (newHead # take (length body - 1) body))"

section \<open>The single-player page: \<open>move\<close>\<close>

text \<open>
  The component state (\<open>useState\<close>). \<open>BOARD_I_LENGTH\<close> and \<open>BOARD_J_LENGTH\<close> come
  from a constants module; they are the parameters \<open>I\<close> and \<open>J\<close> of the functions
  below.
\<close>

record SnakeGame =
  board :: "CellType Coord list list"
  snake :: "CellType Coord list"
  food :: "CellType Coord option"
  direction :: Direction

text \<open>
  What one call does: the lines written with \<open>console.log\<close>/\<open>console.warn\<close>, an
  uncaught exception if one is thrown, and the component state once the updates
  queued by the setters called before that point are applied.
\<close>

record Effect =
  console :: "string list"
  uncaught :: "error option"
  state :: SnakeGame

text \<open>\<open>board.map(row => row.map(cell => ({ ...cell, type: CellType.EMPTY })))\<close>\<close>

definition clearBoard :: "CellType Coord list list \<Rightarrow> CellType Coord list list" where
  "clearBoard b = map (map (\<lambda>cell. cell\<lparr>type := EMPTY\<rparr>)) b"

text \<open>
  \<open>newBoard[r][c].type = t\<close>. Outside the matrix \<open>newBoard[r]\<close> or \<open>newBoard[r][c]\<close> is
  \<open>undefined\<close> and the statement throws.
\<close>

definition setType ::
  "CellType Coord list list \<Rightarrow> int \<Rightarrow> int \<Rightarrow> CellType \<Rightarrow> error + CellType Coord list list" where
  "setType b r c t =
     (if 0 \<le> r \<and> r < int (length b) \<and> 0 \<le> c \<and> c < int (length (b ! nat r))
      then Inr (b[nat r := (b ! nat r)[nat c := (b ! nat r ! nat c)\<lparr>type := t\<rparr>]])
      else Inl TypeError)"

text \<open>\<open>newSnake.forEach(segment => { newBoard[segment.row][segment.col].type = t })\<close>\<close>

fun paint ::
  "CellType Coord list list \<Rightarrow> CellType Coord list \<Rightarrow> CellType \<Rightarrow> error + CellType Coord list list" where
  "paint b [] t = Inr b"
| "paint b (s # ss) t =
     (case setType b (row s) (col s) t of Inl e \<Rightarrow> Inl e | Inr b' \<Rightarrow> paint b' ss t)"

text \<open>The board rebuilt at the end of \<open>move\<close>: cleared, snake cells, then the food cell.\<close>

definition redraw ::
  "CellType Coord list list \<Rightarrow> CellType Coord list \<Rightarrow> CellType Coord option \<Rightarrow> bool
     \<Rightarrow> error + CellType Coord list list" where
  "redraw b newSnake fd ate =
     (case paint (clearBoard b) newSnake SNAKE of
        Inl e \<Rightarrow> Inl e
      | Inr newBoard \<Rightarrow>
          (case fd of
             None \<Rightarrow> Inr newBoard
           | Some f \<Rightarrow> if \<not> ate then setType newBoard (row f) (col f) FOOD else Inr newBoard))"

definition move :: "int \<Rightarrow> int \<Rightarrow> SnakeGame \<Rightarrow> Effect" where
  "move I J s =
     (case snake s of
        [] \<Rightarrow> \<lparr>console = [], uncaught = None, state = s\<rparr>
      | head # _ \<Rightarrow>
          let newHead = advance head (direction s) SNAKE in
          if hitsWall I J newHead
          then \<lparr>console = [''Game Over: Hit wall''], uncaught = None, state = s\<rparr>
          else if occupies (snake s) (row newHead) (col newHead)
          then \<lparr>console = [''Game Over: Hit itself''], uncaught = None, state = s\<rparr>
          else
            let ate = ateFood newHead (food s);
                newSnake = (if ate then newHead # snake s
                            else newHead # take (length (snake s) - 1) (snake s));
                s1 = (if ate then s\<lparr>food := None\<rparr> else s);
                s2 = s1\<lparr>snake := newSnake\<rparr>
            in (case redraw (board s) newSnake (food s) ate of
                  Inl e \<Rightarrow> \<lparr>console = [], uncaught = Some e, state = s2\<rparr>
                | Inr newBoard \<Rightarrow>
                    \<lparr>console = [], uncaught = None, state = s2\<lparr>board := newBoard\<rparr>\<rparr>))"

section \<open>Body invariants\<close>

text \<open>The cells of a body, as (row, column) pairs, head first.\<close>

definition cells :: "'t Coord list \<Rightarrow> (int \<times> int) list" where
  "cells body = map (\<lambda>s. (row s, col s)) body"

text \<open>Two cells are 4-adjacent: one step apart along exactly one axis.\<close>

definition adjacent4 :: "int \<times> int \<Rightarrow> int \<times> int \<Rightarrow> bool" where
  "adjacent4 a b = (\<bar>fst a - fst b\<bar> + \<bar>snd a - snd b\<bar> = 1)"

definition wellFormed :: "'t Coord list \<Rightarrow> bool" where
  "wellFormed body = (distinct (cells body) \<and> successively adjacent4 (cells body))"

section \<open>Food placement\<close>

text \<open>
  The cells pushed to \<open>emptyCells\<close> by the double loop over \<open>i\<close> and \<open>j\<close>, in loop order;
  \<open>occ i j\<close> is the test that some snake has a segment on \<open>(i, j)\<close>.
\<close>

definition emptyCells :: "int \<Rightarrow> int \<Rightarrow> (int \<Rightarrow> int \<Rightarrow> bool) \<Rightarrow> (int \<times> int) list" where
  "emptyCells I J occ = [(i, j). i \<leftarrow> [0..I - 1], j \<leftarrow> [0..J - 1], \<not> occ i j]"

text \<open>
  JavaScript numbers are IEEE 754 doubles. A finite double that is not negative is a
  multiple \<open>a * 2 ^ t\<close> of the smallest positive double \<open>2 ^ -1074\<close> with fewer than 54
  significant bits (\<open>a < 2 ^ 53\<close>) and below \<open>2 ^ 1024\<close>.
\<close>

definition isDouble :: "real \<Rightarrow> bool" where
  "isDouble x = (\<exists>a t :: nat. a < 2 ^ 53 \<and> t \<le> 2045 \<and> x = real (a * 2 ^ t) / 2 ^ 1074)"

text \<open>The number of binary digits of a positive integer.\<close>

function bitLength :: "int \<Rightarrow> nat" where
  "bitLength p = (if p \<le> 0 then 0 else Suc (bitLength (p div 2)))"
  by pat_completeness auto
termination
  by (relation "measure nat") auto

declare bitLength.simps [simp del]

text \<open>
  Rounding of an integer that is not negative to 53 significant bits, to the nearest
  such number and to the even one of two that are equally near: the rounding of every
  double operation, on numbers counted in units of \<open>2 ^ -1074\<close>.
\<close>

definition round53 :: "int \<Rightarrow> int" where
  "round53 p =
     (let len = bitLength p in
      if len \<le> 53 then p
      else
        let s = len - 53; q = p div 2 ^ s; r = p mod 2 ^ s in
        if r < 2 ^ (s - 1) \<or> (r = 2 ^ (s - 1) \<and> even q) then q * 2 ^ s else (q + 1) * 2 ^ s)"

text \<open>
  The double product \<open>x * n\<close> of a double \<open>x\<close> that is not negative and an array length
  \<open>n\<close> (an integer below \<open>2 ^ 32\<close>, itself a double): the exact product, a multiple of
  \<open>2 ^ -1074\<close>, rounded. With \<open>x < 1\<close> the product is far from overflow.
\<close>

definition doubleTimes :: "real \<Rightarrow> nat \<Rightarrow> real" where
  "doubleTimes x n = real_of_int (round53 (\<lfloor>x * 2 ^ 1074\<rfloor> * int n)) / 2 ^ 1074"

text \<open>
  \<open>Math.floor(Math.random() * emptyCells.length)\<close>, with the value of \<open>Math.random()\<close> as
  the parameter \<open>rnd\<close>, a double of \<open>[0, 1)\<close>.
\<close>

definition randomIndex :: "real \<Rightarrow> nat \<Rightarrow> int" where
  "randomIndex rnd n = \<lfloor>doubleTimes rnd n\<rfloor>"

text \<open>
  \<open>placeFood\<close> of the single-player page. \<open>Math.random()\<close> lies in \<open>[0, 1)\<close>, so the index
  is inside \<open>emptyCells\<close>; for any other \<open>rnd\<close> the element read is \<open>undefined\<close> and
  destructuring it throws. The board is written before the food is set.
\<close>

definition placeFood :: "int \<Rightarrow> int \<Rightarrow> real \<Rightarrow> SnakeGame \<Rightarrow> Effect" where
  "placeFood I J rnd s =
     (let cells = emptyCells I J (occupies (snake s)) in
      if length cells = 0
      then \<lparr>console = [''No empty cells available for food!''], uncaught = None, state = s\<rparr>
      else
        let k = randomIndex rnd (length cells) in
        if k < 0 \<or> k \<ge> int (length cells)
        then \<lparr>console = [], uncaught = Some TypeError, state = s\<rparr>
        else
          (case cells ! nat k of
             (r, c) \<Rightarrow>
               (case setType (clearBoard (board s)) r c FOOD of
                  Inl e \<Rightarrow> \<lparr>console = [], uncaught = Some e, state = s\<rparr>
                | Inr newBoard \<Rightarrow>
                    \<lparr>console = [], uncaught = None,
                     state = s\<lparr>board := newBoard,
                               food := Some \<lparr>row = r, col = c, type = FOOD\<rparr>\<rparr>\<rparr>)))"

text \<open>
  \<open>placeFood\<close> of the two-player page, over the two bodies. It only calls \<open>setFood\<close>:
  the result is the coordinate passed to \<open>setFood\<close>, or \<open>None\<close> when the function
  returns without calling it.
\<close>

definition placeFoodTwo ::
  "CellTypeTwo Coord list \<Rightarrow> CellTypeTwo Coord list \<Rightarrow> real \<Rightarrow> error + CellTypeTwo Coord option" where
  "placeFoodTwo snakeOne snakeTwo rnd =
     (let cells = emptyCells BOARD_ROWS BOARD_COLS
                    (\<lambda>r c. occupies snakeOne r c \<or> occupies snakeTwo r c) in
      if length cells = 0 then Inr None
      else
        let k = randomIndex rnd (length cells) in
        if k < 0 \<or> k \<ge> int (length cells) then Inl TypeError
        else (case cells ! nat k of (r, c) \<Rightarrow> Inr (Some \<lparr>row = r, col = c, type = FOOD_TWO\<rparr>)))"

text \<open>\<open>initBoard\<close>: the matrix of \<open>EMPTY\<close> cells.\<close>

definition initBoard :: "int \<Rightarrow> int \<Rightarrow> CellType Coord list list" where
  "initBoard I J = map (\<lambda>i. map (\<lambda>j. \<lparr>row = i, col = j, type = EMPTY\<rparr>) [0..J - 1]) [0..I - 1]"

section \<open>The path planner (src/helper/snakeHelper.ts)\<close>

text \<open>
  An A* node. The source's fields \<open>row\<close>, \<open>col\<close>, \<open>g\<close>, \<open>h\<close>, \<open>f\<close>, \<open>parent\<close> are the
  selectors \<open>nrow\<close>, \<open>ncol\<close>, \<open>gcost\<close>, \<open>hcost\<close>, \<open>fcost\<close>, \<open>parent\<close> here. A \<open>parent\<close> is
  always a node that has already left the open set, and only nodes still in the open
  set are ever assigned to, so a parent never changes once it is linked: the reference
  is modelled by the parent's value.
\<close>

datatype Node = Node (nrow: int) (ncol: int) (gcost: int) (hcost: int) (fcost: int) (parent: "Node option")

text \<open>
  \<open>isValid(row, col)\<close> on the matrix \<open>brd\<close>. \<open>cols\<close> is the length of the first row;
  when a later row is shorter, \<open>board[row][col]\<close> is \<open>undefined\<close> and reading its \<open>type\<close>
  throws.
\<close>

definition isValid :: "CellType Coord list list \<Rightarrow> int \<Rightarrow> int \<Rightarrow> error + bool" where
  "isValid brd r c =
     (let rows = int (length brd);
          cols = (case brd of [] \<Rightarrow> 0 | first # _ \<Rightarrow> int (length first))
      in if r < 0 \<or> r \<ge> rows \<or> c < 0 \<or> c \<ge> cols then Inr False
         else if nat c < length (brd ! nat r)
         then (let cell = brd ! nat r ! nat c in Inr (type cell = EMPTY \<or> type cell = FOOD))
         else Inl TypeError)"

definition heuristic :: "CellType Coord \<Rightarrow> int \<Rightarrow> int \<Rightarrow> int" where
  "heuristic fd r c = \<bar>r - row fd\<bar> + \<bar>c - col fd\<bar>"

text \<open>
  \<open>coordKey\<close> builds the string \<open>row-col\<close>, which determines the two integers; the
  key is modelled by the pair.
\<close>

definition coordKey :: "int \<Rightarrow> int \<Rightarrow> int \<times> int" where
  "coordKey r c = (r, c)"

definition startNode :: "CellType Coord \<Rightarrow> CellType Coord \<Rightarrow> Node" where
  "startNode fd start =
     Node (row start) (col start) 0 (heuristic fd (row start) (col start))
       (heuristic fd (row start) (col start)) None"

text \<open>The table \<open>moves\<close>: direction, \<open>rowDelta\<close>, \<open>colDelta\<close>.\<close>

definition moves :: "(Direction \<times> int \<times> int) list" where
  "moves = [(UP, -1, 0), (DOWN, 1, 0), (LEFT, 0, -1), (RIGHT, 0, 1)]"

text \<open>Assignment to the first node of the open set that satisfies \<open>P\<close>.\<close>

fun replaceFirst :: "(Node \<Rightarrow> bool) \<Rightarrow> Node \<Rightarrow> Node list \<Rightarrow> Node list" where
  "replaceFirst P n' [] = []"
| "replaceFirst P n' (n # ns) = (if P n then n' # ns else n # replaceFirst P n' ns)"

text \<open>The body of \<open>for (const move of moves)\<close> for one move.\<close>

definition visit ::
  "CellType Coord list list \<Rightarrow> CellType Coord \<Rightarrow> Node \<Rightarrow> (int \<times> int) set \<Rightarrow> Node list
     \<Rightarrow> Direction \<times> int \<times> int \<Rightarrow> error + Node list" where
  "visit brd fd current closedSet openSet mv =
     (let newRow = nrow current + fst (snd mv);
          newCol = ncol current + snd (snd mv)
      in case isValid brd newRow newCol of
           Inl e \<Rightarrow> Inl e
         | Inr ok \<Rightarrow>
             if \<not> ok then Inr openSet
             else if coordKey newRow newCol \<in> closedSet then Inr openSet
             else
               let tentativeG = gcost current + 1 in
               (case find (\<lambda>n. nrow n = newRow \<and> ncol n = newCol) openSet of
                  None \<Rightarrow>
                    Inr (openSet @
                      [Node newRow newCol tentativeG (heuristic fd newRow newCol)
                         (tentativeG + heuristic fd newRow newCol) (Some current)])
                | Some neighbor \<Rightarrow>
                    if tentativeG < gcost neighbor
                    then Inr (replaceFirst (\<lambda>n. nrow n = newRow \<and> ncol n = newCol)
                           (Node (nrow neighbor) (ncol neighbor) tentativeG (hcost neighbor)
                              (tentativeG + hcost neighbor) (Some current))
                           openSet)
                    else Inr openSet))"

fun explore ::
  "CellType Coord list list \<Rightarrow> CellType Coord \<Rightarrow> Node \<Rightarrow> (int \<times> int) set \<Rightarrow> Node list
     \<Rightarrow> (Direction \<times> int \<times> int) list \<Rightarrow> error + Node list" where
  "explore brd fd current closedSet openSet [] = Inr openSet"
| "explore brd fd current closedSet openSet (mv # mvs) =
     (case visit brd fd current closedSet openSet mv of
        Inl e \<Rightarrow> Inl e
      | Inr openSet' \<Rightarrow> explore brd fd current closedSet openSet' mvs)"

text \<open>The loop \<open>while (temp) { path.push(temp); temp = temp.parent }\<close>.\<close>

fun ancestors :: "Node \<Rightarrow> Node list" where
  "ancestors (Node r c g h f p) =
     Node r c g h f p # (case p of None \<Rightarrow> [] | Some q \<Rightarrow> ancestors q)"

text \<open>
  The block \<open>if (current.row === food.row && current.col === food.col) { ... }\<close>.
  \<open>Some result\<close> is a \<open>return\<close> of the function; \<open>None\<close> means that control goes on to
  the neighbours. A returned direction comes with the array \<open>path\<close> it was read from.
\<close>

definition atFood ::
  "CellType Coord \<Rightarrow> CellType Coord \<Rightarrow> Node \<Rightarrow> (Node list \<times> Direction) option option" where
  "atFood fd start current =
     (if nrow current = row fd \<and> ncol current = col fd
      then
        let path = rev (ancestors current) in
        if length path < 2 then Some None
        else
          let nextStep = path ! 1 in
          if nrow nextStep < row start then Some (Some (path, UP))
          else if nrow nextStep > row start then Some (Some (path, DOWN))
          else if ncol nextStep < col start then Some (Some (path, LEFT))
          else if ncol nextStep > col start then Some (Some (path, RIGHT))
          else None
      else None)"

text \<open>What decreases in every round of the search loop (used for termination only).\<close>

definition nkey :: "Node \<Rightarrow> int \<times> int" where
  "nkey n = (nrow n, ncol n)"

definition pending :: "CellType Coord list list \<Rightarrow> Node list \<Rightarrow> (int \<times> int) set \<Rightarrow> (int \<times> int) set" where
  "pending brd openSet closedSet =
     {v. isValid brd (fst v) (snd v) = Inr True \<and> v \<notin> closedSet \<and> v \<notin> nkey ` set openSet}"

definition weight :: "CellType Coord list list \<Rightarrow> Node list \<Rightarrow> (int \<times> int) set \<Rightarrow> nat" where
  "weight brd openSet closedSet = 2 * card (pending brd openSet closedSet) + length openSet"

lemma finite_pending: "finite (pending brd openSet closedSet)"
proof -
  have "pending brd openSet closedSet
          \<subseteq> {0..<int (length brd)} \<times> {0..<(case brd of [] \<Rightarrow> 0 | first # _ \<Rightarrow> int (length first))}"
    by (auto simp: pending_def isValid_def Let_def split: if_splits)
  then show ?thesis by (rule finite_subset) simp
qed

lemma find_None_nkey: "find (\<lambda>n. nrow n = r \<and> ncol n = c) xs = None \<longleftrightarrow> (r, c) \<notin> nkey ` set xs"
  by (auto simp: find_None_iff nkey_def)

lemma nkey_replaceFirst:
  "nkey n' = (r, c) \<Longrightarrow>
   nkey ` set (replaceFirst (\<lambda>n. nrow n = r \<and> ncol n = c) n' xs) = nkey ` set xs"
  by (induction xs) (auto simp: nkey_def)

lemma length_replaceFirst: "length (replaceFirst P n' xs) = length xs"
  by (induction xs) auto

lemma find_Some_key: "find (\<lambda>n. nrow n = r \<and> ncol n = c) xs = Some n \<Longrightarrow> nrow n = r \<and> ncol n = c"
  by (auto simp: find_Some_iff)

lemma visit_weight:
  assumes "visit brd fd cur C O1 mv = Inr O2"
  shows "weight brd O2 C \<le> weight brd O1 C"
proof -
  let ?r = "nrow cur + fst (snd mv)" and ?c = "ncol cur + snd (snd mv)"
  let ?P = "\<lambda>n. nrow n = ?r \<and> ncol n = ?c"
  consider (same) "O2 = O1"
    | (push) n where "O2 = O1 @ [n]" "nkey n = (?r, ?c)" "isValid brd ?r ?c = Inr True"
        "(?r, ?c) \<notin> C" "(?r, ?c) \<notin> nkey ` set O1"
    | (better) n' where "O2 = replaceFirst ?P n' O1" "nkey n' = (?r, ?c)"
    using assms
    by (auto simp: visit_def Let_def coordKey_def nkey_def find_None_nkey [unfolded nkey_def]
        split: sum.splits if_splits option.splits dest: find_Some_key)
  then show ?thesis
  proof cases
    case same
    then show ?thesis by simp
  next
    case (push n)
    have in1: "(?r, ?c) \<in> pending brd O1 C" using push by (simp add: pending_def)
    have "pending brd O2 C = pending brd O1 C - {(?r, ?c)}"
      using push by (auto simp: pending_def)
    then have "card (pending brd O2 C) = card (pending brd O1 C) - 1"
      using in1 by (simp add: finite_pending)
    moreover have "card (pending brd O1 C) \<ge> 1"
      using in1 finite_pending [of brd O1 C] by (metis One_nat_def Suc_leI card_gt_0_iff empty_iff)
    ultimately show ?thesis using push by (simp add: weight_def)
  next
    case (better n')
    then show ?thesis
      by (simp add: weight_def pending_def nkey_replaceFirst length_replaceFirst)
  qed
qed

lemma explore_weight:
  "explore brd fd cur C O1 mvs = Inr O2 \<Longrightarrow> weight brd O2 C \<le> weight brd O1 C"
proof (induction mvs arbitrary: O1)
  case Nil
  then show ?case by simp
next
  case (Cons mv mvs)
  then show ?case
    by (auto split: sum.splits dest!: visit_weight) (meson le_trans)
qed

lemma pop_weight:
  assumes "O1 \<noteq> []"
  shows "weight brd (tl (sort_key fcost O1)) (insert (nkey (hd (sort_key fcost O1))) C) < weight brd O1 C"
proof -
  obtain cur rest where s: "sort_key fcost O1 = cur # rest"
    using assms by (cases "sort_key fcost O1") (auto dest: arg_cong [where f = length])
  have set: "set O1 = insert cur (set rest)" using s by (metis list.simps(15) set_sort)
  have len: "length O1 = Suc (length rest)" using s by (metis length_Cons length_sort)
  have "pending brd rest (insert (nkey cur) C) \<subseteq> pending brd O1 C"
    by (auto simp: pending_def set)
  then have "card (pending brd rest (insert (nkey cur) C)) \<le> card (pending brd O1 C)"
    by (rule card_mono [OF finite_pending])
  then show ?thesis by (simp add: s weight_def len)
qed

text \<open>
  The loop \<open>while (openSet.length > 0)\<close>. \<open>Array.prototype.sort\<close> is stable, as
  \<open>sort_key\<close> is; \<open>shift\<close> takes the first node off the sorted array.
\<close>

function search ::
  "CellType Coord list list \<Rightarrow> CellType Coord \<Rightarrow> CellType Coord \<Rightarrow> Node list \<Rightarrow> (int \<times> int) set
     \<Rightarrow> error + (Node list \<times> Direction) option" where
  "search brd fd start openSet closedSet =
     (if openSet = [] then Inr None
      else
        let sorted = sort_key fcost openSet;
            current = hd sorted;
            rest = tl sorted;
            closedSet' = insert (coordKey (nrow current) (ncol current)) closedSet
        in case atFood fd start current of
             Some result \<Rightarrow> Inr result
           | None \<Rightarrow>
               (case explore brd fd current closedSet' rest moves of
                  Inl e \<Rightarrow> Inl e
                | Inr openSet' \<Rightarrow> search brd fd start openSet' closedSet'))"
  by pat_completeness auto
termination
proof (relation "measure (\<lambda>(brd, fd, start, openSet, closedSet). weight brd openSet closedSet)")
  show "wf (measure (\<lambda>(brd, fd, start, openSet, closedSet). weight brd openSet closedSet))"
    by simp
next
  fix brd :: "CellType Coord list list" and fd start :: "CellType Coord"
    and openSet :: "Node list" and closedSet :: "(int \<times> int) set"
    and sorted current rest closedSet' openSet'
  assume ne: "openSet \<noteq> []" and s: "sorted = sort_key fcost openSet"
    and c: "current = hd sorted" and r: "rest = tl sorted"
    and cl: "closedSet' = insert (coordKey (nrow current) (ncol current)) closedSet"
    and ex: "explore brd fd current closedSet' rest moves = Inr openSet'"
  have "weight brd openSet' closedSet' \<le> weight brd rest closedSet'"
    by (rule explore_weight [OF ex])
  also have "\<dots> < weight brd openSet closedSet"
    using pop_weight [OF ne, of brd closedSet] by (simp add: s c r cl coordKey_def nkey_def)
  finally show "((brd, fd, start, openSet', closedSet'), (brd, fd, start, openSet, closedSet))
      \<in> measure (\<lambda>(brd, fd, start, openSet, closedSet). weight brd openSet closedSet)"
    by simp
qed

declare search.simps [simp del]

text \<open>
  \<open>findShortestWayToFood(board, snake, food)\<close>, first with the path that the returned
  direction was read from, then as the source returns it.
\<close>

definition findPath ::
  "CellType Coord list list \<Rightarrow> CellType Coord list \<Rightarrow> CellType Coord
     \<Rightarrow> error + (Node list \<times> Direction) option" where
  "findPath brd snk fd =
     (case snk of
        [] \<Rightarrow> Inr None
      | start # _ \<Rightarrow> search brd fd start [startNode fd start] {})"

definition findShortestWayToFood ::
  "CellType Coord list list \<Rightarrow> CellType Coord list \<Rightarrow> CellType Coord \<Rightarrow> error + Direction option" where
  "findShortestWayToFood brd snk fd =
     (case findPath brd snk fd of Inl e \<Rightarrow> Inl e | Inr result \<Rightarrow> Inr (map_option snd result))"

section \<open>The autonomous page: the snapshot handed to the planner\<close>

text \<open>
  \<open>getPathfindingBoard\<close> of the AI page: every cell \<open>EMPTY\<close>, then \<open>SNAKE\<close> where a
  segment lies, then \<open>FOOD\<close> on the food cell.
\<close>

definition getPathfindingBoard ::
  "int \<Rightarrow> int \<Rightarrow> CellType Coord list \<Rightarrow> CellType Coord option \<Rightarrow> CellType Coord list list" where
  "getPathfindingBoard I J snk fd =
     map (\<lambda>i. map (\<lambda>j.
            \<lparr>row = i, col = j,
             type = (if (case fd of None \<Rightarrow> False | Some f \<Rightarrow> row f = i \<and> col f = j) then FOOD
                     else if occupies snk i j then SNAKE else EMPTY)\<rparr>)
          [0..J - 1])
       [0..I - 1]"

section \<open>Paths on a snapshot\<close>

text \<open>A cell the planner may enter: inside the matrix and tagged \<open>EMPTY\<close> or \<open>FOOD\<close>.\<close>

definition passable :: "CellType Coord list list \<Rightarrow> int \<times> int \<Rightarrow> bool" where
  "passable brd v = (isValid brd (fst v) (snd v) = Inr True)"

text \<open>
  A 4-connected walk through passable cells: consecutive cells are 4-adjacent and every
  cell after the first is passable. The first cell is where the walk starts from and
  is not tested, as the planner does not test the head's cell.
\<close>

definition passableWalk :: "CellType Coord list list \<Rightarrow> (int \<times> int) list \<Rightarrow> bool" where
  "passableWalk brd p = (p \<noteq> [] \<and> successively adjacent4 p \<and> (\<forall>v \<in> set (tl p). passable brd v))"

definition walkTo ::
  "CellType Coord list list \<Rightarrow> int \<times> int \<Rightarrow> int \<times> int \<Rightarrow> (int \<times> int) list \<Rightarrow> bool" where
  "walkTo brd s t p = (passableWalk brd p \<and> hd p = s \<and> last p = t)"

text \<open>Every row of the matrix is as long as the first one.\<close>

definition rectangular :: "CellType Coord list list \<Rightarrow> bool" where
  "rectangular brd = (\<forall>r \<in> set brd. length r = length (hd brd))"

text \<open>The cell next to \<open>v\<close> in a direction.\<close>

fun neighbour :: "int \<times> int \<Rightarrow> Direction \<Rightarrow> int \<times> int" where
  "neighbour (r, c) UP = (r - 1, c)"
| "neighbour (r, c) DOWN = (r + 1, c)"
| "neighbour (r, c) LEFT = (r, c - 1)"
| "neighbour (r, c) RIGHT = (r, c + 1)"

section \<open>The invariant of the search loop\<close>

text \<open>
  A node records a walk: its costs are what the source computes, and following
  \<open>parent\<close> leads, one passable 4-adjacent step at a time and with \<open>g\<close> falling by one,
  to a node on the start cell with \<open>g = 0\<close> and no parent.
\<close>

fun wfNode :: "CellType Coord list list \<Rightarrow> CellType Coord \<Rightarrow> int \<times> int \<Rightarrow> Node \<Rightarrow> bool" where
  "wfNode brd fd s (Node r c g h f p) =
     (h = heuristic fd r c \<and> f = g + h \<and>
      (case p of
         None \<Rightarrow> (r, c) = s \<and> g = 0
       | Some q \<Rightarrow> passable brd (r, c) \<and> adjacent4 (nkey q) (r, c) \<and> g = gcost q + 1
                   \<and> wfNode brd fd s q))"

text \<open>\<open>g\<close> is at most one more than the number of steps of any walk from \<open>s\<close> to \<open>u\<close>.\<close>

definition below :: "CellType Coord list list \<Rightarrow> int \<times> int \<Rightarrow> int \<times> int \<Rightarrow> int \<Rightarrow> bool" where
  "below brd s u g = (\<forall>q. walkTo brd s u q \<longrightarrow> g \<le> int (length q))"

text \<open>
  The invariant, for an open list \<open>opn\<close>, the closed set \<open>C\<close> and the set \<open>D\<close> of closed
  cells whose neighbours have all been visited.
\<close>

definition searchInv ::
  "CellType Coord list list \<Rightarrow> CellType Coord \<Rightarrow> int \<times> int \<Rightarrow> Node list \<Rightarrow> (int \<times> int) set
     \<Rightarrow> (int \<times> int) set \<Rightarrow> bool" where
  "searchInv brd fd s opn C D =
     ((\<forall>n \<in> set opn. wfNode brd fd s n)
      \<and> distinct (map nkey opn)
      \<and> nkey ` set opn \<inter> C = {}
      \<and> (s \<in> C \<or> (\<exists>n \<in> set opn. nkey n = s \<and> gcost n \<le> 0))
      \<and> (\<forall>u \<in> D. \<forall>v. adjacent4 u v \<and> passable brd v \<longrightarrow>
            v \<in> C \<or> (\<exists>n \<in> set opn. nkey n = v \<and> below brd s u (gcost n))))"

text \<open>Every node of \<open>xs\<close> has a node on the same cell in \<open>ys\<close> that costs no more.\<close>

definition improves :: "Node list \<Rightarrow> Node list \<Rightarrow> bool" where
  "improves xs ys = (\<forall>n \<in> set xs. \<exists>n' \<in> set ys. nkey n' = nkey n \<and> gcost n' \<le> gcost n)"

section \<open>Uniform choice\<close>

text \<open>
  \<open>chosen\<close> is drawn uniformly from the list \<open>E\<close> by the random number \<open>rnd\<close>: \<open>E\<close> has
  no repetition, nothing is chosen exactly when \<open>E\<close> is empty, and the \<open>k\<close>-th of the
  \<open>n\<close> elements is chosen exactly when \<open>rnd\<close> falls in \<open>[k/n, (k+1)/n)\<close>, so every element
  has an interval of the same length \<open>1/n\<close>.
\<close>

definition choosesUniformly :: "real \<Rightarrow> (int \<times> int) list \<Rightarrow> (int \<times> int) option \<Rightarrow> bool" where
  "choosesUniformly rnd E chosen =
     (distinct E
      \<and> (chosen = None \<longleftrightarrow> E = [])
      \<and> (\<forall>c. chosen = Some c \<longrightarrow> c \<in> set E)
      \<and> (\<forall>k < length E.
            chosen = Some (E ! k)
            \<longleftrightarrow> real k / real (length E) \<le> rnd \<and> rnd < (real k + 1) / real (length E)))"

text \<open>
  \<open>chosen\<close> is drawn from \<open>E\<close> uniformly up to the rounding of the double product: as
  above, but the \<open>k\<close>-th of the \<open>n\<close> elements is chosen only if \<open>rnd * n\<close> lies in
  \<open>[k, k + 1)\<close> up to a relative error of \<open>2 ^ -53\<close>, and is chosen whenever \<open>rnd * n\<close> lies
  in \<open>[k, k + 1)\<close> with that margin to spare.
\<close>

definition choosesNearlyUniformly :: "real \<Rightarrow> (int \<times> int) list \<Rightarrow> (int \<times> int) option \<Rightarrow> bool" where
  "choosesNearlyUniformly rnd E chosen =
     (distinct E
      \<and> (chosen = None \<longleftrightarrow> E = [])
      \<and> (\<forall>c. chosen = Some c \<longrightarrow> c \<in> set E)
      \<and> (\<forall>k < length E.
            (chosen = Some (E ! k) \<longrightarrow>
               real k \<le> rnd * real (length E) * (1 + 1 / 2 ^ 53)
               \<and> rnd * real (length E) * (1 - 1 / 2 ^ 53) < real k + 1)
            \<and> (real k \<le> rnd * real (length E) * (1 - 1 / 2 ^ 53)
               \<and> rnd * real (length E) * (1 + 1 / 2 ^ 53) < real k + 1 \<longrightarrow>
               chosen = Some (E ! k))))"
section \<open>Properties of the movement functions\<close>

lemma advance_cell:
  "(row (advance hd0 d t), col (advance hd0 d t)) =
     (case d of UP \<Rightarrow> (row hd0 - 1, col hd0) | DOWN \<Rightarrow> (row hd0 + 1, col hd0)
              | LEFT \<Rightarrow> (row hd0, col hd0 - 1) | RIGHT \<Rightarrow> (row hd0, col hd0 + 1))"
  by (cases d) simp_all

lemma advance_adjacent: "adjacent4 (row (advance hd0 d t), col (advance hd0 d t)) (row hd0, col hd0)"
  by (cases d) (simp_all add: adjacent4_def)

lemma occupies_cells: "occupies body r c \<longleftrightarrow> (r, c) \<in> set (cells body)"
  by (auto simp: occupies_def cells_def list_ex_iff)

lemma cells_Cons: "cells (x # xs) = (row x, col x) # cells xs"
  by (simp add: cells_def)

lemma cells_take: "cells (take n xs) = take n (cells xs)"
  by (simp add: cells_def take_map)

lemma successively_take: "successively P xs \<Longrightarrow> successively P (take n xs)"
  using successively_append_iff [of P "take n xs" "drop n xs"] by simp

lemma wellFormed_grow:
  assumes "wellFormed body" "\<not> occupies body (row nh) (col nh)"
    "body = h0 # rest" "adjacent4 (row nh, col nh) (row h0, col h0)"
  shows "wellFormed (nh # body)"
  using assms by (simp add: wellFormed_def cells_Cons occupies_cells)

lemma wellFormed_shift:
  assumes "wellFormed body" "\<not> occupies body (row nh) (col nh)"
    "body = h0 # rest" "adjacent4 (row nh, col nh) (row h0, col h0)"
  shows "wellFormed (nh # take (length body - 1) body)"
proof -
  let ?t = "take (length body - 1) body"
  have d: "distinct (cells ?t)" using assms(1) by (simp add: wellFormed_def cells_take)
  have s: "successively adjacent4 (cells ?t)"
    using assms(1) by (simp add: wellFormed_def cells_take successively_take)
  have n: "(row nh, col nh) \<notin> set (cells ?t)"
    using assms(2) by (auto simp: occupies_cells cells_take dest: in_set_takeD)
  have h: "?t = [] \<or> hd (cells ?t) = (row h0, col h0)"
    using assms(3) by (cases rest) (simp_all add: cells_def)
  show ?thesis
    using d s n h assms(4)
    by (auto simp: wellFormed_def cells_Cons successively_Cons cells_def)
qed


lemma move_hitsWall:
  "snake s = h0 # rest \<Longrightarrow> hitsWall I J (advance h0 (direction s) SNAKE) \<Longrightarrow>
   move I J s = \<lparr>console = [''Game Over: Hit wall''], uncaught = None, state = s\<rparr>"
  by (simp add: move_def Let_def)

lemma move_hitsSelf:
  "snake s = h0 # rest \<Longrightarrow> \<not> hitsWall I J (advance h0 (direction s) SNAKE) \<Longrightarrow>
   occupies (snake s) (row (advance h0 (direction s) SNAKE)) (col (advance h0 (direction s) SNAKE)) \<Longrightarrow>
   move I J s = \<lparr>console = [''Game Over: Hit itself''], uncaught = None, state = s\<rparr>"
  by (simp add: move_def Let_def)

lemma move_advances:
  assumes "snake s = h0 # rest" "nh = advance h0 (direction s) SNAKE"
    "\<not> hitsWall I J nh" "\<not> occupies (snake s) (row nh) (col nh)"
  shows "snake (state (move I J s)) =
           (if ateFood nh (food s) then nh # snake s
            else nh # take (length (snake s) - 1) (snake s))"
    and "food (state (move I J s)) = (if ateFood nh (food s) then None else food s)"
    and "console (move I J s) = []"
    and "direction (state (move I J s)) = direction s"
  using assms by (auto simp: move_def Let_def split: sum.splits)

lemma moveSnake_Cons:
  "moveSnake fd (h0 # rest) d t =
     (let newHead = advance h0 d t in
      if hitsWall BOARD_ROWS BOARD_COLS newHead then None
      else if occupies (h0 # rest) (row newHead) (col newHead) then None
      else if ateFood newHead fd then Some (newHead # h0 # rest)
      else Some (newHead # take (length (h0 # rest) - 1) (h0 # rest)))"
  by (simp add: moveSnake_def)

lemma move_keeps_wellFormed:
  assumes "snake s \<noteq> []" "wellFormed (snake s)"
  shows "wellFormed (snake (state (move I J s))) \<and> length (snake (state (move I J s))) \<ge> 1"
proof -
  obtain h0 rest where b: "snake s = h0 # rest" using assms(1) by (cases "snake s") auto
  let ?nh = "advance h0 (direction s) SNAKE"
  have adj: "adjacent4 (row ?nh, col ?nh) (row h0, col h0)" by (rule advance_adjacent)
  consider (wall) "hitsWall I J ?nh"
    | (self) "\<not> hitsWall I J ?nh" "occupies (snake s) (row ?nh) (col ?nh)"
    | (ok) "\<not> hitsWall I J ?nh" "\<not> occupies (snake s) (row ?nh) (col ?nh)"
    by blast
  then show ?thesis
  proof cases
    case wall
    show ?thesis using assms b by (simp add: move_hitsWall [OF b wall])
  next
    case self
    show ?thesis using assms b by (simp add: move_hitsSelf [OF b self])
  next
    case ok
    have g: "wellFormed (?nh # snake s)" by (rule wellFormed_grow [OF assms(2) ok(2) b adj])
    have sh: "wellFormed (?nh # take (length (snake s) - 1) (snake s))"
      by (rule wellFormed_shift [OF assms(2) ok(2) b adj])
    show ?thesis using g sh by (simp add: move_advances(1) [OF b refl ok])
  qed
qed

lemma moveSnake_keeps_wellFormed:
  assumes "body \<noteq> []" "wellFormed body" "moveSnake fd body d t = Some body'"
  shows "wellFormed body' \<and> length body' \<ge> 1"
proof -
  obtain h0 rest where b: "body = h0 # rest" using assms(1) by (cases body) auto
  let ?nh = "advance h0 d t"
  have adj: "adjacent4 (row ?nh, col ?nh) (row h0, col h0)" by (rule advance_adjacent)
  have no: "\<not> occupies body (row ?nh) (col ?nh)"
    using assms(3) b by (auto simp: moveSnake_def Let_def split: if_splits)
  have g: "wellFormed (?nh # body)" by (rule wellFormed_grow [OF assms(2) no b adj])
  have sh: "wellFormed (?nh # take (length body - 1) body)"
    by (rule wellFormed_shift [OF assms(2) no b adj])
  show ?thesis using assms(3) g sh b
    by (auto simp: moveSnake_def Let_def split: if_splits)
qed

section \<open>Properties of food placement\<close>

lemma set_emptyCells:
  "set (emptyCells I J occ) = {(i, j). 0 \<le> i \<and> i < I \<and> 0 \<le> j \<and> j < J \<and> \<not> occ i j}"
  by (auto simp: emptyCells_def)

lemma emptyCells_filter:
  "emptyCells I J occ = filter (\<lambda>(i, j). \<not> occ i j) (List.product [0..I - 1] [0..J - 1])"
proof -
  have inner: "concat (map (\<lambda>j. if \<not> occ i j then [(i, j)] else []) js)
                 = filter (\<lambda>(i, j). \<not> occ i j) (map (Pair i) js)" for i and js :: "int list"
    by (induction js) auto
  have outer: "concat (map (\<lambda>i. filter (\<lambda>(i, j). \<not> occ i j) (map (Pair i) js)) xs)
                 = filter (\<lambda>(i, j). \<not> occ i j) (List.product xs js)" for xs js :: "int list"
    by (induction xs) auto
  show ?thesis unfolding emptyCells_def inner outer ..
qed

lemma distinct_emptyCells: "distinct (emptyCells I J occ)"
  unfolding emptyCells_filter by (simp add: distinct_product)

lemma bitLength_pos: "0 < p \<Longrightarrow> bitLength p = Suc (bitLength (p div 2))"
  by (subst bitLength.simps) simp

lemma bitLength_nonpos: "p \<le> 0 \<Longrightarrow> bitLength p = 0"
  by (subst bitLength.simps) simp

lemma bitLength_bounds: "0 < p \<Longrightarrow> 2 ^ (bitLength p - 1) \<le> p \<and> p < 2 ^ bitLength p"
proof (induction p rule: bitLength.induct)
  case (1 p)
  show ?case
  proof (cases "p div 2 \<le> 0")
    case True
    then have "p = 1" using "1.prems" by linarith
    then show ?thesis by (simp add: bitLength_pos bitLength_nonpos)
  next
    case False
    then have h: "0 < p div 2" by simp
    have "\<not> p \<le> 0" using "1.prems" by simp
    from "1.IH" [OF this h]
    have lo: "2 ^ (bitLength (p div 2) - 1) \<le> p div 2" and hi: "p div 2 < 2 ^ bitLength (p div 2)"
      by simp_all
    have pos: "0 < bitLength (p div 2)" using h by (simp add: bitLength_pos)
    have "(2::int) ^ bitLength (p div 2) = 2 * 2 ^ (bitLength (p div 2) - 1)"
      using pos by (cases "bitLength (p div 2)") simp_all
    then have "2 ^ bitLength (p div 2) \<le> p" using lo by linarith
    moreover have "p < 2 * 2 ^ bitLength (p div 2)" using hi by linarith
    ultimately show ?thesis using "1.prems" by (simp add: bitLength_pos)
  qed
qed

lemma round53_error:
  assumes "0 \<le> p"
  shows "p * (2 ^ 53 - 1) \<le> round53 p * 2 ^ 53 \<and> round53 p * 2 ^ 53 \<le> p * (2 ^ 53 + 1)"
proof (cases "bitLength p \<le> 53")
  case True
  then have "round53 p = p" by (simp add: round53_def)
  then show ?thesis using assms by (simp add: algebra_simps)
next
  case False
  then have len: "54 \<le> bitLength p" by simp
  then have pos: "0 < p" using bitLength_nonpos [of p] by (cases "0 < p") auto
  define s where "s = bitLength p - 53"
  define h :: int where "h = 2 ^ (s - 1)"
  have s1: "1 \<le> s" using len unfolding s_def by simp
  have two_s: "(2::int) ^ s = 2 * h" unfolding h_def using s1 by (cases s) simp_all
  have "bitLength p - 1 = 53 + (s - 1)" using len unfolding s_def by simp
  then have "(2::int) ^ (bitLength p - 1) = 2 ^ 53 * h" unfolding h_def by (simp add: power_add)
  then have big: "2 ^ 53 * h \<le> p" using bitLength_bounds [OF pos] by simp
  define q where "q = p div (2 * h)"
  define r where "r = p mod (2 * h)"
  have hpos: "0 < h" unfolding h_def by simp
  have decomp: "p = q * (2 * h) + r"
    unfolding q_def r_def using div_mult_mod_eq [of p "2 * h"] by linarith
  have r0: "0 \<le> r" and r2: "r < 2 * h" unfolding r_def using hpos by simp_all
  have R: "round53 p = (if r < h \<or> (r = h \<and> even q) then q * (2 * h) else (q + 1) * (2 * h))"
    using False unfolding round53_def Let_def s_def [symmetric] two_s h_def [symmetric]
      q_def [symmetric] r_def [symmetric] by simp
  show ?thesis
  proof (cases "r < h \<or> (r = h \<and> even q)")
    case True
    then have rh: "r \<le> h" by auto
    have "round53 p = p - r" using R True decomp by simp
    then show ?thesis using rh r0 big pos by (simp add: algebra_simps)
  next
    case False
    then have rh: "h \<le> r" by auto
    have "round53 p = p - r + 2 * h" using R False decomp by (simp add: algebra_simps)
    then show ?thesis using rh r2 big pos by (simp add: algebra_simps)
  qed
qed

lemma dyadic_below_one:
  fixes a t e :: nat
  assumes a: "a < 2 ^ 53" and lt: "real (a * 2 ^ t) / 2 ^ e < 1"
  shows "int (a * 2 ^ t) * 2 ^ 53 \<le> 2 ^ e * (2 ^ 53 - 1)"
proof (cases "a = 0")
  case True
  then show ?thesis by simp
next
  case False
  define m :: int where "m = int (a * 2 ^ t)"
  have "real (a * 2 ^ t) < 2 ^ e" using lt by (simp add: pos_divide_less_eq)
  then have "a * 2 ^ t < 2 ^ e" by (metis of_nat_less_iff of_nat_numeral of_nat_power)
  then have m_lt: "m < 2 ^ e" unfolding m_def by (metis of_nat_less_iff of_nat_numeral of_nat_power)
  have "(2::int) ^ t \<le> m" using False unfolding m_def by (cases a) simp_all
  then have "(2::int) ^ t < 2 ^ e" using m_lt by linarith
  then have t: "t < e" by simp
  define d where "d = e - t"
  define A :: int where "A = int a"
  define T :: int where "T = 2 ^ t"
  define D :: int where "D = 2 ^ d"
  have TD: "T * D = 2 ^ e" unfolding T_def D_def d_def using t by (simp add: power_add [symmetric])
  have mAT: "m = A * T" unfolding m_def A_def T_def by simp
  have Tpos: "0 < T" unfolding T_def by simp
  have "A * T < D * T" using m_lt mAT TD by (simp add: mult.commute)
  then have AD: "A < D" using Tpos by (simp add: mult_less_cancel_right)
  have A53: "A < 2 ^ 53" unfolding A_def using a by (metis of_nat_less_iff of_nat_numeral of_nat_power)
  have key: "A * 2 ^ 53 \<le> D * (2 ^ 53 - 1)"
  proof (cases "d \<le> 53")
    case True
    from power_increasing [OF this, of "2::int"] have "D \<le> 2 ^ 53" unfolding D_def by simp
    then show ?thesis using AD by (simp add: algebra_simps)
  next
    case False
    then have "54 \<le> d" by simp
    from power_increasing [OF this, of "2::int"] have "(2::int) ^ 54 \<le> D" unfolding D_def by simp
    then show ?thesis using A53 by (simp add: algebra_simps)
  qed
  have "m * 2 ^ 53 = T * (A * 2 ^ 53)" unfolding mAT by (simp add: algebra_simps)
  also have "\<dots> \<le> T * (D * (2 ^ 53 - 1))" using key Tpos by (simp add: mult_le_cancel_left)
  also have "\<dots> = 2 ^ e * (2 ^ 53 - 1)" using TD by (simp add: mult.assoc [symmetric])
  finally show ?thesis unfolding m_def .
qed

text \<open>The bounds of the rounded product, for any unit \<open>U\<close>.\<close>

lemma rounded_bounds:
  fixes U :: real and m :: int
  assumes U: "0 < U" and m: "0 \<le> m"
  shows "real_of_int m * real n * (1 - 1 / 2 ^ 53) / U \<le> real_of_int (round53 (m * int n)) / U
         \<and> real_of_int (round53 (m * int n)) / U \<le> real_of_int m * real n * (1 + 1 / 2 ^ 53) / U"
proof -
  let ?p = "m * int n" and ?R = "round53 (m * int n)"
  have p: "0 \<le> ?p" using m by simp
  from round53_error [OF p]
  have lo: "?p * (2 ^ 53 - 1) \<le> ?R * 2 ^ 53" and hi: "?R * 2 ^ 53 \<le> ?p * (2 ^ 53 + 1)"
    by simp_all
  have lo': "real_of_int (?p * (2 ^ 53 - 1)) \<le> real_of_int (?R * 2 ^ 53)"
    using lo by (simp only: of_int_le_iff)
  have hi': "real_of_int (?R * 2 ^ 53) \<le> real_of_int (?p * (2 ^ 53 + 1))"
    using hi by (simp only: of_int_le_iff)
  have e: "real_of_int ?p = real_of_int m * real n" by simp
  have a0: "real_of_int m * real n * (1 - 1 / 2 ^ 53) \<le> real_of_int ?R"
    using lo' unfolding e [symmetric] by (simp add: field_simps)
  have b0: "real_of_int ?R \<le> real_of_int m * real n * (1 + 1 / 2 ^ 53)"
    using hi' unfolding e [symmetric] by (simp add: field_simps)
  have U0: "0 \<le> U" using U by simp
  show ?thesis
    using divide_right_mono [OF a0 U0] divide_right_mono [OF b0 U0] by blast
qed

lemma isDouble_nonneg:
  assumes "isDouble x"
  shows "0 \<le> x"
proof -
  obtain a t :: nat where x: "x = real (a * 2 ^ t) / 2 ^ 1074"
    using assms unfolding isDouble_def by blast
  show ?thesis unfolding x by (rule divide_nonneg_nonneg) simp_all
qed

lemma isDouble_below_one:
  assumes "isDouble x" "x < 1"
  shows "x \<le> 1 - 1 / 2 ^ 53"
proof -
  obtain a t :: nat where a: "a < 2 ^ 53" and x: "x = real (a * 2 ^ t) / 2 ^ 1074"
    using assms(1) unfolding isDouble_def by blast
  have "int (a * 2 ^ t) * 2 ^ 53 \<le> 2 ^ 1074 * (2 ^ 53 - 1)"
    by (rule dyadic_below_one [OF a]) (use assms(2) x in simp)
  then have "real_of_int (int (a * 2 ^ t) * 2 ^ 53) \<le> real_of_int (2 ^ 1074 * (2 ^ 53 - 1))"
    by (simp only: of_int_le_iff)
  then have "real (a * 2 ^ t) * 2 ^ 53 \<le> 2 ^ 1074 * (2 ^ 53 - 1)" by simp
  then have "real (a * 2 ^ t) / 2 ^ 1074 \<le> (2 ^ 53 - 1) / 2 ^ 53"
    by (simp add: field_simps)
  then show ?thesis unfolding x by simp
qed

lemma doubleTimes_bounds:
  assumes "isDouble x"
  shows "x * real n * (1 - 1 / 2 ^ 53) \<le> doubleTimes x n
         \<and> doubleTimes x n \<le> x * real n * (1 + 1 / 2 ^ 53)"
proof -
  obtain a t :: nat where x: "x = real (a * 2 ^ t) / 2 ^ 1074"
    using assms unfolding isDouble_def by blast
  define m :: int where "m = int (a * 2 ^ t)"
  have m0: "0 \<le> m" unfolding m_def by simp
  have xm: "x = real_of_int m / 2 ^ 1074" unfolding x m_def by simp
  have "x * 2 ^ 1074 = real_of_int m" unfolding xm by simp
  then have fl: "\<lfloor>x * 2 ^ 1074\<rfloor> = m" by simp
  have dt: "doubleTimes x n = real_of_int (round53 (m * int n)) / 2 ^ 1074"
    unfolding doubleTimes_def fl ..
  have U: "(0::real) < 2 ^ 1074" by simp
  have sc: "x * real n * c = real_of_int m * real n * c / 2 ^ 1074" for c
    unfolding xm by simp
  show ?thesis using rounded_bounds [OF U m0, of n] unfolding dt sc .
qed

lemma randomIndex_range:
  assumes "isDouble rnd" "rnd < 1" "0 < n"
  shows "0 \<le> randomIndex rnd n \<and> randomIndex rnd n < int n"
proof -
  note B = doubleTimes_bounds [OF assms(1), of n]
  have r0: "0 \<le> rnd" by (rule isDouble_nonneg [OF assms(1)])
  have r1: "rnd \<le> 1 - 1 / 2 ^ 53" by (rule isDouble_below_one [OF assms(1,2)])
  have "0 \<le> rnd * real n * (1 - 1 / 2 ^ 53)" using r0 by simp
  then have "0 \<le> doubleTimes rnd n" using B by linarith
  then have lo: "0 \<le> randomIndex rnd n" unfolding randomIndex_def by simp
  have "rnd * (real n * (1 + 1 / 2 ^ 53)) \<le> (1 - 1 / 2 ^ 53) * (real n * (1 + 1 / 2 ^ 53))"
    by (rule mult_right_mono [OF r1]) simp
  also have "\<dots> < real n" using assms(3) by (simp add: field_simps)
  finally have "doubleTimes rnd n < real n" using B by (simp add: mult.assoc)
  then have "randomIndex rnd n < int n" unfolding randomIndex_def by (simp add: floor_less_iff)
  with lo show ?thesis by simp
qed

lemma randomIndex_near:
  assumes "isDouble rnd"
  shows "randomIndex rnd n = k \<longrightarrow>
           real_of_int k \<le> rnd * real n * (1 + 1 / 2 ^ 53)
           \<and> rnd * real n * (1 - 1 / 2 ^ 53) < real_of_int k + 1"
    and "real_of_int k \<le> rnd * real n * (1 - 1 / 2 ^ 53)
           \<and> rnd * real n * (1 + 1 / 2 ^ 53) < real_of_int k + 1 \<longrightarrow> randomIndex rnd n = k"
proof -
  note B = doubleTimes_bounds [OF assms, of n]
  have F: "randomIndex rnd n = k \<longleftrightarrow>
             real_of_int k \<le> doubleTimes rnd n \<and> doubleTimes rnd n < real_of_int k + 1"
    unfolding randomIndex_def by (rule floor_eq_iff)
  show "randomIndex rnd n = k \<longrightarrow>
           real_of_int k \<le> rnd * real n * (1 + 1 / 2 ^ 53)
           \<and> rnd * real n * (1 - 1 / 2 ^ 53) < real_of_int k + 1"
    unfolding F using B by linarith
  show "real_of_int k \<le> rnd * real n * (1 - 1 / 2 ^ 53)
           \<and> rnd * real n * (1 + 1 / 2 ^ 53) < real_of_int k + 1 \<longrightarrow> randomIndex rnd n = k"
    unfolding F using B by linarith
qed

lemma bitLength_double: "0 < p \<Longrightarrow> bitLength (p * 2) = Suc (bitLength p)"
  using bitLength_pos [of "p * 2"] by simp

lemma bitLength_scale: "0 < p \<Longrightarrow> bitLength (p * 2 ^ t) = bitLength p + t"
proof (induction t)
  case 0
  then show ?case by simp
next
  case (Suc t)
  have "0 < p * 2 ^ t" using Suc.prems by simp
  from bitLength_double [OF this] have b: "bitLength (p * 2 ^ t * 2) = Suc (bitLength p + t)"
    using Suc by simp
  have e: "p * 2 ^ Suc t = p * 2 ^ t * 2" by simp
  show ?case unfolding e b by simp
qed

text \<open>Rounding to 53 significant bits commutes with scaling by a power of two.\<close>

lemma round53_scale:
  assumes "0 < p"
  shows "round53 (p * 2 ^ t) = round53 p * 2 ^ t"
proof (cases "bitLength p + t \<le> 53")
  case True
  then show ?thesis using assms by (simp add: round53_def bitLength_scale)
next
  case long: False
  show ?thesis
  proof (cases "bitLength p \<le> 53")
    case True
    define s where "s = bitLength p + t - 53"
    have st: "s \<le> t" and s1: "1 \<le> s" using True long unfolding s_def by simp_all
    have split: "(2::int) ^ t = 2 ^ (t - s) * 2 ^ s" using st by (simp add: power_add [symmetric])
    have q: "p * 2 ^ t div 2 ^ s = p * 2 ^ (t - s)" unfolding split by (simp add: mult.assoc [symmetric])
    have r: "p * 2 ^ t mod 2 ^ s = 0" unfolding split by (simp add: mult.assoc [symmetric])
    have "round53 (p * 2 ^ t) = p * 2 ^ (t - s) * 2 ^ s"
      using long unfolding round53_def Let_def bitLength_scale [OF assms] s_def [symmetric] q r
      by simp
    also have "\<dots> = p * 2 ^ t" unfolding split by (simp add: mult.assoc)
    finally show ?thesis using True by (simp add: round53_def)
  next
    case False
    define s where "s = bitLength p - 53"
    have s1: "1 \<le> s" using False unfolding s_def by simp
    have len: "bitLength p + t - 53 = s + t" using False unfolding s_def by simp
    have q: "p * 2 ^ t div 2 ^ (s + t) = p div 2 ^ s"
      by (simp add: power_add)
    have r: "p * 2 ^ t mod 2 ^ (s + t) = (p mod 2 ^ s) * 2 ^ t"
      by (simp add: power_add mult_mod_left mult.commute)
    have h: "(2::int) ^ (s + t - 1) = 2 ^ (s - 1) * 2 ^ t"
      using s1 by (simp add: power_add [symmetric])
    have lt: "(p mod 2 ^ s) * 2 ^ t < 2 ^ (s - 1) * 2 ^ t \<longleftrightarrow> p mod 2 ^ s < 2 ^ (s - 1)"
      by (simp add: mult_less_cancel_right)
    have eq: "(p mod 2 ^ s) * 2 ^ t = 2 ^ (s - 1) * 2 ^ t \<longleftrightarrow> p mod 2 ^ s = 2 ^ (s - 1)"
      by simp
    have "round53 (p * 2 ^ t) =
            (if p mod 2 ^ s < 2 ^ (s - 1) \<or> (p mod 2 ^ s = 2 ^ (s - 1) \<and> even (p div 2 ^ s))
             then p div 2 ^ s * 2 ^ (s + t) else (p div 2 ^ s + 1) * 2 ^ (s + t))"
      using long unfolding round53_def Let_def bitLength_scale [OF assms] len q r h lt eq
      by simp
    moreover have "round53 p =
            (if p mod 2 ^ s < 2 ^ (s - 1) \<or> (p mod 2 ^ s = 2 ^ (s - 1) \<and> even (p div 2 ^ s))
             then p div 2 ^ s * 2 ^ s else (p div 2 ^ s + 1) * 2 ^ s)"
      using False unfolding round53_def Let_def s_def [symmetric] by simp
    ultimately show ?thesis by (simp add: power_add mult.assoc)
  qed
qed

lemma randomIndex_dyadic:
  fixes a t :: nat
  assumes "0 < a" "0 < n" "t \<le> 1074"
  shows "randomIndex (real a / 2 ^ (1074 - t)) n
           = \<lfloor>real_of_int (round53 (int a * int n)) / 2 ^ (1074 - t)\<rfloor>"
proof -
  have split: "(2::real) ^ 1074 = 2 ^ (1074 - t) * 2 ^ t"
    using assms(3) by (simp add: power_add [symmetric])
  have "real a / 2 ^ (1074 - t) * 2 ^ 1074 = real a * 2 ^ t"
    unfolding split by simp
  also have "\<dots> = real_of_int (int a * 2 ^ t)" by simp
  finally have fl: "\<lfloor>real a / 2 ^ (1074 - t) * 2 ^ 1074\<rfloor> = int a * 2 ^ t"
    by (metis floor_of_int)
  have "round53 (int a * 2 ^ t * int n) = round53 (int a * int n * 2 ^ t)"
    by (simp add: mult.assoc mult.commute mult.left_commute)
  also have "\<dots> = round53 (int a * int n) * 2 ^ t"
    by (rule round53_scale) (use assms in simp)
  finally have R: "round53 (int a * 2 ^ t * int n) = round53 (int a * int n) * 2 ^ t" .
  have "doubleTimes (real a / 2 ^ (1074 - t)) n
          = real_of_int (round53 (int a * int n) * 2 ^ t) / 2 ^ 1074"
    unfolding doubleTimes_def fl R ..
  also have "\<dots> = real_of_int (round53 (int a * int n)) * 2 ^ t / (2 ^ (1074 - t) * 2 ^ t)"
    unfolding split by simp
  also have "\<dots> = real_of_int (round53 (int a * int n)) / 2 ^ (1074 - t)" by simp
  finally show ?thesis unfolding randomIndex_def by simp
qed

lemma setType_inside:
  assumes "0 \<le> r" "r < I" "0 \<le> c" "c < J" "length b = nat I" "\<forall>rw \<in> set b. length rw = nat J"
  shows "\<exists>nb. setType (clearBoard b) r c t = Inr nb"
proof -
  have "nat r < length b" using assms by simp
  then have "length (clearBoard b ! nat r) = nat J"
    using assms(6) by (simp add: clearBoard_def)
  then show ?thesis using assms by (simp add: setType_def clearBoard_def)
qed

lemma placeFood_full:
  "emptyCells I J (occupies (snake s)) = [] \<Longrightarrow>
   placeFood I J rnd s
     = \<lparr>console = [''No empty cells available for food!''], uncaught = None, state = s\<rparr>"
  by (simp add: placeFood_def)

lemma placeFood_places:
  assumes ne: "emptyCells I J (occupies (snake s)) \<noteq> []"
    and rnd: "isDouble rnd" "rnd < 1"
    and brd: "length (board s) = nat I" "\<forall>rw \<in> set (board s). length rw = nat J"
  defines "E \<equiv> emptyCells I J (occupies (snake s))"
  defines "k \<equiv> nat (randomIndex rnd (length E))"
  shows "k < length E
         \<and> food (state (placeFood I J rnd s)) = Some \<lparr>row = fst (E ! k), col = snd (E ! k), type = FOOD\<rparr>
         \<and> uncaught (placeFood I J rnd s) = None \<and> console (placeFood I J rnd s) = []
         \<and> snake (state (placeFood I J rnd s)) = snake s"
proof -
  have n: "0 < length E" using ne unfolding E_def by simp
  note R = randomIndex_range [OF rnd n]
  have k: "k < length E" using R unfolding k_def by linarith
  obtain r c where rc: "E ! k = (r, c)" by (cases "E ! k")
  have "(r, c) \<in> set E" using k rc by (metis nth_mem)
  then have "0 \<le> r" "r < I" "0 \<le> c" "c < J" unfolding E_def set_emptyCells by simp_all
  from setType_inside [OF this brd] obtain nb
    where nb: "setType (clearBoard (board s)) r c FOOD = Inr nb" by blast
  show ?thesis
    using n R k rc nb unfolding placeFood_def Let_def E_def [symmetric] k_def [symmetric]
    by simp
qed

lemma placeFoodTwo_full:
  "emptyCells BOARD_ROWS BOARD_COLS (\<lambda>r c. occupies snakeOne r c \<or> occupies snakeTwo r c) = [] \<Longrightarrow>
   placeFoodTwo snakeOne snakeTwo rnd = Inr None"
  by (simp add: placeFoodTwo_def)

lemma placeFoodTwo_places:
  assumes ne: "emptyCells BOARD_ROWS BOARD_COLS (\<lambda>r c. occupies snakeOne r c \<or> occupies snakeTwo r c) \<noteq> []"
    and rnd: "isDouble rnd" "rnd < 1"
  defines "E \<equiv> emptyCells BOARD_ROWS BOARD_COLS (\<lambda>r c. occupies snakeOne r c \<or> occupies snakeTwo r c)"
  defines "k \<equiv> nat (randomIndex rnd (length E))"
  shows "k < length E
         \<and> placeFoodTwo snakeOne snakeTwo rnd
             = Inr (Some \<lparr>row = fst (E ! k), col = snd (E ! k), type = FOOD_TWO\<rparr>)"
proof -
  have n: "0 < length E" using ne unfolding E_def by simp
  note R = randomIndex_range [OF rnd n]
  have k: "k < length E" using R unfolding k_def by linarith
  obtain r c where rc: "E ! k = (r, c)" by (cases "E ! k")
  show ?thesis
    using n R k rc unfolding placeFoodTwo_def Let_def E_def [symmetric] k_def [symmetric]
    by simp
qed

lemma emptyCells_Nil:
  "emptyCells I J occ = [] \<longleftrightarrow> (\<forall>i j. 0 \<le> i \<and> i < I \<and> 0 \<le> j \<and> j < J \<longrightarrow> occ i j)"
proof -
  have "emptyCells I J occ = [] \<longleftrightarrow> set (emptyCells I J occ) = {}" by simp
  also have "\<dots> \<longleftrightarrow> (\<forall>i j. 0 \<le> i \<and> i < I \<and> 0 \<le> j \<and> j < J \<longrightarrow> occ i j)"
    unfolding set_emptyCells by auto
  finally show ?thesis .
qed

lemma choosesNearlyUniformlyI:
  assumes d: "distinct E" and rnd: "isDouble rnd" "rnd < 1"
    and c: "chosen = (if E = [] then None else Some (E ! nat (randomIndex rnd (length E))))"
  shows "choosesNearlyUniformly rnd E chosen"
proof (cases "E = []")
  case True
  then show ?thesis using c by (simp add: choosesNearlyUniformly_def)
next
  case False
  then have n: "0 < length E" by simp
  let ?k = "nat (randomIndex rnd (length E))"
  note R = randomIndex_range [OF rnd n]
  have k': "?k < length E" using R by linarith
  have ch: "chosen = Some (E ! ?k)" using c False by simp
  have idx: "chosen = Some (E ! k) \<longleftrightarrow> randomIndex rnd (length E) = int k" if "k < length E" for k
  proof -
    have "E ! ?k = E ! k \<longleftrightarrow> ?k = k" using d that k' by (simp add: nth_eq_iff_index_eq)
    also have "\<dots> \<longleftrightarrow> randomIndex rnd (length E) = int k" using R by linarith
    finally show ?thesis unfolding ch by simp
  qed
  have "\<forall>k < length E.
            (chosen = Some (E ! k) \<longrightarrow>
               real k \<le> rnd * real (length E) * (1 + 1 / 2 ^ 53)
               \<and> rnd * real (length E) * (1 - 1 / 2 ^ 53) < real k + 1)
            \<and> (real k \<le> rnd * real (length E) * (1 - 1 / 2 ^ 53)
               \<and> rnd * real (length E) * (1 + 1 / 2 ^ 53) < real k + 1 \<longrightarrow>
               chosen = Some (E ! k))"
  proof (intro allI impI)
    fix k assume k: "k < length E"
    show "(chosen = Some (E ! k) \<longrightarrow>
               real k \<le> rnd * real (length E) * (1 + 1 / 2 ^ 53)
               \<and> rnd * real (length E) * (1 - 1 / 2 ^ 53) < real k + 1)
            \<and> (real k \<le> rnd * real (length E) * (1 - 1 / 2 ^ 53)
               \<and> rnd * real (length E) * (1 + 1 / 2 ^ 53) < real k + 1 \<longrightarrow>
               chosen = Some (E ! k))"
      unfolding idx [OF k]
      using randomIndex_near [OF rnd(1), where n = "length E" and k = "int k"] by simp
  qed
  moreover have "E ! ?k \<in> set E" using k' by simp
  ultimately show ?thesis using d False ch unfolding choosesNearlyUniformly_def by simp
qed

section \<open>The search loop keeps its invariant\<close>

lemma improves_refl: "improves xs xs"
  by (auto simp: improves_def)

lemma improves_trans:
  assumes "improves xs ys" "improves ys zs"
  shows "improves xs zs"
  unfolding improves_def
proof
  fix n assume "n \<in> set xs"
  then obtain n1 where 1: "n1 \<in> set ys" "nkey n1 = nkey n" "gcost n1 \<le> gcost n"
    using assms(1) unfolding improves_def by blast
  then obtain n2 where 2: "n2 \<in> set zs" "nkey n2 = nkey n1" "gcost n2 \<le> gcost n1"
    using assms(2) unfolding improves_def by blast
  show "\<exists>n'\<in>set zs. nkey n' = nkey n \<and> gcost n' \<le> gcost n"
    using 1 2 by (intro bexI [of _ n2]) auto
qed

lemma below_mono: "below brd s u g \<Longrightarrow> g' \<le> g \<Longrightarrow> below brd s u g'"
  unfolding below_def by force

lemma wfNode_costs: "wfNode brd fd s n \<Longrightarrow> hcost n = heuristic fd (nrow n) (ncol n) \<and> fcost n = gcost n + hcost n"
  by (cases n) simp

lemma replaceFirst_keys:
  "nkey n' = (r, c) \<Longrightarrow>
   map nkey (replaceFirst (\<lambda>n. nrow n = r \<and> ncol n = c) n' xs) = map nkey xs"
  by (induction xs) (auto simp: nkey_def)

lemma replaceFirst_set:
  "find P xs = Some m \<Longrightarrow>
   set (replaceFirst P n' xs) \<subseteq> insert n' (set xs) \<and> n' \<in> set (replaceFirst P n' xs)
   \<and> (\<forall>n \<in> set xs. n \<noteq> m \<longrightarrow> n \<in> set (replaceFirst P n' xs))"
  by (induction xs) (auto split: if_splits)

lemma find_Some_mem: "find P xs = Some m \<Longrightarrow> m \<in> set xs \<and> P m"
  by (auto simp: find_Some_iff)

lemma adjacent4_moves:
  "adjacent4 u v \<longleftrightarrow> (\<exists>mv \<in> set moves. v = (fst u + fst (snd mv), snd u + snd (snd mv)))"
  by (cases u; cases v) (auto simp: adjacent4_def moves_def)

lemma heuristic_step: "adjacent4 u v \<Longrightarrow> heuristic fd (fst u) (snd u) \<le> 1 + heuristic fd (fst v) (snd v)"
  by (cases u; cases v) (auto simp: adjacent4_def heuristic_def)


lemma searchInv_improves:
  assumes "searchInv brd fd s O1 C D"
    and "\<forall>n \<in> set O2. wfNode brd fd s n"
    and "distinct (map nkey O2)"
    and "nkey ` set O2 \<inter> C = {}"
    and "improves O1 O2"
  shows "searchInv brd fd s O2 C D"
proof -
  have start: "s \<in> C \<or> (\<exists>n \<in> set O2. nkey n = s \<and> gcost n \<le> 0)"
  proof (cases "s \<in> C")
    case False
    then obtain n where n: "n \<in> set O1" "nkey n = s" "gcost n \<le> 0"
      using assms(1) unfolding searchInv_def by blast
    obtain n' where "n' \<in> set O2" "nkey n' = nkey n" "gcost n' \<le> gcost n"
      using assms(5) n(1) unfolding improves_def by blast
    then have "n' \<in> set O2 \<and> nkey n' = s \<and> gcost n' \<le> 0" using n by simp
    then show ?thesis by blast
  qed simp
  have nb: "\<forall>u \<in> D. \<forall>v. adjacent4 u v \<and> passable brd v \<longrightarrow>
            v \<in> C \<or> (\<exists>n \<in> set O2. nkey n = v \<and> below brd s u (gcost n))"
  proof (intro ballI allI impI)
    fix u v assume u: "u \<in> D" and av: "adjacent4 u v \<and> passable brd v"
    show "v \<in> C \<or> (\<exists>n \<in> set O2. nkey n = v \<and> below brd s u (gcost n))"
    proof (cases "v \<in> C")
      case False
      have "\<forall>u \<in> D. \<forall>v. adjacent4 u v \<and> passable brd v \<longrightarrow>
            v \<in> C \<or> (\<exists>n \<in> set O1. nkey n = v \<and> below brd s u (gcost n))"
        using assms(1) unfolding searchInv_def by simp
      then obtain n where n: "n \<in> set O1" "nkey n = v" "below brd s u (gcost n)"
        using u av False by blast
      obtain n' where n': "n' \<in> set O2" "nkey n' = nkey n" "gcost n' \<le> gcost n"
        using assms(5) n(1) unfolding improves_def by blast
      have "below brd s u (gcost n')" by (rule below_mono [OF n(3) n'(3)])
      then have "n' \<in> set O2 \<and> nkey n' = v \<and> below brd s u (gcost n')"
        using n n' by simp
      then show ?thesis by blast
    qed simp
  qed
  show ?thesis
    unfolding searchInv_def using assms(2,3,4) start nb by simp
qed

lemma visit_searchInv:
  assumes vis: "visit brd fd cur C O1 mv = Inr O2"
    and I: "searchInv brd fd s O1 C D"
    and wc: "wfNode brd fd s cur"
    and mv: "mv \<in> set moves"
    and v: "v = (nrow cur + fst (snd mv), ncol cur + snd (snd mv))"
  shows "searchInv brd fd s O2 C D \<and> improves O1 O2
         \<and> (passable brd v \<longrightarrow> v \<in> C \<or> (\<exists>n \<in> set O2. nkey n = v \<and> gcost n \<le> gcost cur + 1))"
proof -
  let ?P = "\<lambda>n. nrow n = fst v \<and> ncol n = snd v"
  have adj: "adjacent4 (nkey cur) v"
    using mv v unfolding adjacent4_moves nkey_def by auto
  have I1: "\<forall>n \<in> set O1. wfNode brd fd s n" and I2: "distinct (map nkey O1)"
    and I3: "nkey ` set O1 \<inter> C = {}"
    using I unfolding searchInv_def by blast+
  show ?thesis
  proof (cases "passable brd v \<and> v \<notin> C")
    case False
    then have "O2 = O1"
      using vis unfolding visit_def Let_def passable_def v coordKey_def
      by (auto split: sum.splits if_splits)
    then show ?thesis using I False improves_refl by auto
  next
    case True
    then have pv: "passable brd v" and nc: "v \<notin> C" by simp_all
    have iv: "isValid brd (nrow cur + fst (snd mv)) (ncol cur + snd (snd mv)) = Inr True"
      using pv unfolding passable_def v by simp
    show ?thesis
    proof (cases "find ?P O1")
      case None
      let ?nn = "Node (fst v) (snd v) (gcost cur + 1) (heuristic fd (fst v) (snd v))
                   (gcost cur + 1 + heuristic fd (fst v) (snd v)) (Some cur)"
      have O2: "O2 = O1 @ [?nn]"
        using vis None nc iv unfolding visit_def Let_def v coordKey_def by simp
      have fresh: "v \<notin> nkey ` set O1"
        using None by (auto simp: find_None_iff nkey_def)
      have wn: "wfNode brd fd s ?nn" using pv adj wc by simp
      have kn: "nkey ?nn = v" by (simp add: nkey_def)
      have a: "\<forall>n \<in> set O2. wfNode brd fd s n" using I1 wn O2 by auto
      have b: "distinct (map nkey O2)" using I2 fresh kn O2 by auto
      have c: "nkey ` set O2 \<inter> C = {}" using I3 nc kn O2 by auto
      have d: "improves O1 O2" unfolding improves_def O2 by auto
      have e: "\<exists>n \<in> set O2. nkey n = v \<and> gcost n \<le> gcost cur + 1"
        unfolding O2 using kn by (intro bexI [of _ ?nn]) auto
      show ?thesis using searchInv_improves [OF I a b c d] d e by blast
    next
      case (Some m)
      have m: "m \<in> set O1" "nkey m = v"
        using find_Some_mem [OF Some] by (auto simp: nkey_def)
      show ?thesis
      proof (cases "gcost cur + 1 < gcost m")
        case False
        have "O2 = O1"
          using vis Some nc iv False unfolding visit_def Let_def v coordKey_def by simp
        moreover have "\<exists>n \<in> set O1. nkey n = v \<and> gcost n \<le> gcost cur + 1"
          using m False by (intro bexI [of _ m]) auto
        ultimately show ?thesis using I improves_refl by auto
      next
        case True
        let ?nn = "Node (nrow m) (ncol m) (gcost cur + 1) (hcost m)
                     (gcost cur + 1 + hcost m) (Some cur)"
        have O2: "O2 = replaceFirst ?P ?nn O1"
          using vis Some nc iv True unfolding visit_def Let_def v coordKey_def by simp
        have kn: "nkey ?nn = v" using m by (simp add: nkey_def)
        have wm: "wfNode brd fd s m" using I1 m by blast
        have wn: "wfNode brd fd s ?nn"
          using pv adj wc wfNode_costs [OF wm] m(2) by (simp add: nkey_def)
        have keys: "map nkey O2 = map nkey O1"
          unfolding O2 by (rule replaceFirst_keys) (use kn in \<open>simp add: nkey_def\<close>)
        note rs = replaceFirst_set [OF Some, of ?nn, folded O2]
        have a: "\<forall>n \<in> set O2. wfNode brd fd s n" using I1 wn rs by auto
        have b: "distinct (map nkey O2)" using I2 keys by simp
        have "nkey ` set O2 = nkey ` set O1" using keys by (metis set_map)
        then have c: "nkey ` set O2 \<inter> C = {}" using I3 by simp
        have d: "improves O1 O2"
          unfolding improves_def
        proof
          fix n assume n: "n \<in> set O1"
          show "\<exists>n' \<in> set O2. nkey n' = nkey n \<and> gcost n' \<le> gcost n"
          proof (cases "n = m")
            case True
            then show ?thesis using rs kn m \<open>gcost cur + 1 < gcost m\<close>
              by (intro bexI [of _ ?nn]) auto
          next
            case False
            then show ?thesis using rs n by (intro bexI [of _ n]) auto
          qed
        qed
        have e: "\<exists>n \<in> set O2. nkey n = v \<and> gcost n \<le> gcost cur + 1"
          using rs kn by (intro bexI [of _ ?nn]) auto
        show ?thesis using searchInv_improves [OF I a b c d] d e by blast
      qed
    qed
  qed
qed

lemma improves_reach:
  assumes "improves xs ys" "\<exists>n \<in> set xs. nkey n = v \<and> gcost n \<le> b"
  shows "\<exists>n \<in> set ys. nkey n = v \<and> gcost n \<le> b"
proof -
  obtain n where n: "n \<in> set xs" "nkey n = v" "gcost n \<le> b" using assms(2) by blast
  obtain n' where n': "n' \<in> set ys" "nkey n' = nkey n" "gcost n' \<le> gcost n"
    using assms(1) n(1) unfolding improves_def by blast
  have "n' \<in> set ys \<and> nkey n' = v \<and> gcost n' \<le> b" using n n' by simp
  then show ?thesis by blast
qed

lemma explore_searchInv:
  assumes "explore brd fd cur C O1 mvs = Inr O2"
    and "searchInv brd fd s O1 C D"
    and "wfNode brd fd s cur"
    and "set mvs \<subseteq> set moves"
  shows "searchInv brd fd s O2 C D \<and> improves O1 O2
         \<and> (\<forall>mv \<in> set mvs.
               passable brd (nrow cur + fst (snd mv), ncol cur + snd (snd mv)) \<longrightarrow>
               (nrow cur + fst (snd mv), ncol cur + snd (snd mv)) \<in> C
               \<or> (\<exists>n \<in> set O2. nkey n = (nrow cur + fst (snd mv), ncol cur + snd (snd mv))
                     \<and> gcost n \<le> gcost cur + 1))"
  using assms
proof (induction mvs arbitrary: O1)
  case Nil
  then show ?case by (simp add: improves_refl)
next
  case (Cons mv mvs)
  from Cons.prems(1) obtain O' where vis: "visit brd fd cur C O1 mv = Inr O'"
    and ex: "explore brd fd cur C O' mvs = Inr O2"
    by (auto split: sum.splits)
  have mv: "mv \<in> set moves" and sub: "set mvs \<subseteq> set moves" using Cons.prems(4) by auto
  note V = visit_searchInv [OF vis Cons.prems(2) Cons.prems(3) mv refl]
  from V have I': "searchInv brd fd s O' C D" and imp1: "improves O1 O'" by simp_all
  note H = Cons.IH [OF ex I' Cons.prems(3) sub]
  from H have I2: "searchInv brd fd s O2 C D" and imp2: "improves O' O2" by simp_all
  have imp: "improves O1 O2" by (rule improves_trans [OF imp1 imp2])
  let ?v = "(nrow cur + fst (snd mv), ncol cur + snd (snd mv))"
  have here: "passable brd ?v \<longrightarrow> ?v \<in> C \<or> (\<exists>n \<in> set O2. nkey n = ?v \<and> gcost n \<le> gcost cur + 1)"
  proof
    assume "passable brd ?v"
    then have "?v \<in> C \<or> (\<exists>n \<in> set O'. nkey n = ?v \<and> gcost n \<le> gcost cur + 1)"
      using V by simp
    then show "?v \<in> C \<or> (\<exists>n \<in> set O2. nkey n = ?v \<and> gcost n \<le> gcost cur + 1)"
      using improves_reach [OF imp2] by blast
  qed
  show ?case using I2 imp here H by simp
qed

lemma distinct_map_sort_key: "distinct (map g (sort_key f xs)) = distinct (map g xs)"
  by (simp add: distinct_map)

lemma pop_searchInv:
  assumes I: "searchInv brd fd s O1 C C" and s: "sort_key fcost O1 = cur # rest"
  shows "searchInv brd fd s rest (insert (nkey cur) C) C"
proof -
  have set: "set O1 = insert cur (set rest)" using s by (metis list.simps(15) set_sort)
  have "distinct (map nkey O1) \<longleftrightarrow> distinct (map nkey (cur # rest))"
    using distinct_map_sort_key [of nkey fcost O1] unfolding s by simp
  moreover have I2: "distinct (map nkey O1)" using I unfolding searchInv_def by simp
  ultimately have d: "distinct (map nkey rest)" and fresh: "nkey cur \<notin> nkey ` set rest" by auto
  have I1: "\<forall>n \<in> set O1. wfNode brd fd s n" and I3: "nkey ` set O1 \<inter> C = {}"
    and I4: "s \<in> C \<or> (\<exists>n \<in> set O1. nkey n = s \<and> gcost n \<le> 0)"
    and I5: "\<forall>u \<in> C. \<forall>v. adjacent4 u v \<and> passable brd v \<longrightarrow>
            v \<in> C \<or> (\<exists>n \<in> set O1. nkey n = v \<and> below brd s u (gcost n))"
    using I unfolding searchInv_def by simp_all
  have a: "\<forall>n \<in> set rest. wfNode brd fd s n" using I1 set by simp
  have c: "nkey ` set rest \<inter> insert (nkey cur) C = {}" using I3 fresh set by auto
  have st: "s \<in> insert (nkey cur) C \<or> (\<exists>n \<in> set rest. nkey n = s \<and> gcost n \<le> 0)"
    using I4 set by auto
  have nb: "\<forall>u \<in> C. \<forall>v. adjacent4 u v \<and> passable brd v \<longrightarrow>
            v \<in> insert (nkey cur) C \<or> (\<exists>n \<in> set rest. nkey n = v \<and> below brd s u (gcost n))"
  proof (intro ballI allI impI)
    fix u v assume u: "u \<in> C" and av: "adjacent4 u v \<and> passable brd v"
    then have "v \<in> C \<or> (\<exists>n \<in> set O1. nkey n = v \<and> below brd s u (gcost n))"
      using I5 by blast
    then show "v \<in> insert (nkey cur) C \<or> (\<exists>n \<in> set rest. nkey n = v \<and> below brd s u (gcost n))"
      unfolding set by auto
  qed
  show ?thesis unfolding searchInv_def using a d c st nb by simp
qed

lemma walkTo_single: "walkTo brd s s [s]"
  by (simp add: walkTo_def passableWalk_def)

lemma walkTo_snoc:
  assumes "walkTo brd s w (q @ [w'])" "q \<noteq> []"
  shows "walkTo brd s (last q) q \<and> adjacent4 (last q) w \<and> passable brd w \<and> w' = w"
  using assms
  by (auto simp: walkTo_def passableWalk_def successively_append_iff)

lemma walkTo_extend:
  assumes "walkTo brd s u q" "adjacent4 u w" "passable brd w"
  shows "walkTo brd s w (q @ [w])"
  using assms
  by (auto simp: walkTo_def passableWalk_def successively_append_iff)

lemma frontier:
  assumes I: "searchInv brd fd s O1 C C"
  shows "walkTo brd s w q \<Longrightarrow> w \<notin> C \<Longrightarrow>
         \<exists>n \<in> set O1. fcost n \<le> int (length q) - 1 + heuristic fd (fst w) (snd w)"
proof (induction q arbitrary: w rule: rev_induct)
  case Nil
  then show ?case by (simp add: walkTo_def passableWalk_def)
next
  case (snoc w' q)
  have I1: "\<forall>n \<in> set O1. wfNode brd fd s n"
    and I4: "s \<in> C \<or> (\<exists>n \<in> set O1. nkey n = s \<and> gcost n \<le> 0)"
    and I5: "\<forall>u \<in> C. \<forall>v. adjacent4 u v \<and> passable brd v \<longrightarrow>
            v \<in> C \<or> (\<exists>n \<in> set O1. nkey n = v \<and> below brd s u (gcost n))"
    using I unfolding searchInv_def by simp_all
  show ?case
  proof (cases "q = []")
    case True
    then have "w = s" using snoc.prems(1) by (auto simp: walkTo_def)
    then obtain n where n: "n \<in> set O1" "nkey n = s" "gcost n \<le> 0"
      using I4 snoc.prems(2) by blast
    have "fcost n = gcost n + heuristic fd (fst s) (snd s)"
      using wfNode_costs [of brd fd s n] I1 n by (auto simp: nkey_def)
    then have "fcost n \<le> int (length (q @ [w'])) - 1 + heuristic fd (fst w) (snd w)"
      using n(3) True \<open>w = s\<close> by simp
    then show ?thesis using n(1) by blast
  next
    case False
    note W = walkTo_snoc [OF snoc.prems(1) False]
    let ?u = "last q"
    from W have wu: "walkTo brd s ?u q" and adj: "adjacent4 ?u w" and pw: "passable brd w" by simp_all
    show ?thesis
    proof (cases "?u \<in> C")
      case True
      then obtain n where n: "n \<in> set O1" "nkey n = w" "below brd s ?u (gcost n)"
        using I5 adj pw snoc.prems(2) by blast
      have "gcost n \<le> int (length q)" using n(3) wu unfolding below_def by blast
      moreover have "fcost n = gcost n + heuristic fd (fst w) (snd w)"
        using wfNode_costs [of brd fd s n] I1 n by (auto simp: nkey_def)
      ultimately have "fcost n \<le> int (length (q @ [w'])) - 1 + heuristic fd (fst w) (snd w)"
        by simp
      then show ?thesis using n(1) by blast
    next
      case False
      then obtain n where n: "n \<in> set O1"
          "fcost n \<le> int (length q) - 1 + heuristic fd (fst ?u) (snd ?u)"
        using snoc.IH [OF wu] by blast
      have "heuristic fd (fst ?u) (snd ?u) \<le> 1 + heuristic fd (fst w) (snd w)"
        by (rule heuristic_step [OF adj])
      then have "fcost n \<le> int (length (q @ [w'])) - 1 + heuristic fd (fst w) (snd w)"
        using n(2) by simp
      then show ?thesis using n(1) by blast
    qed
  qed
qed

lemma pop_optimal:
  assumes I: "searchInv brd fd s O1 C C" and s: "sort_key fcost O1 = cur # rest"
  shows "below brd s (nkey cur) (gcost cur + 1)"
  unfolding below_def
proof (intro allI impI)
  fix q assume q: "walkTo brd s (nkey cur) q"
  have set: "set O1 = insert cur (set rest)" using s by (metis list.simps(15) set_sort)
  have "sorted (map fcost (cur # rest))" using s by (metis sorted_sort_key)
  then have min: "\<forall>n \<in> set O1. fcost cur \<le> fcost n" unfolding set by auto
  have I1: "\<forall>n \<in> set O1. wfNode brd fd s n" and I3: "nkey ` set O1 \<inter> C = {}"
    using I unfolding searchInv_def by simp_all
  have "nkey cur \<notin> C" using I3 set by auto
  then obtain n where n: "n \<in> set O1"
      "fcost n \<le> int (length q) - 1 + heuristic fd (fst (nkey cur)) (snd (nkey cur))"
    using frontier [OF I q] by blast
  have "fcost cur = gcost cur + heuristic fd (nrow cur) (ncol cur)"
    using wfNode_costs [of brd fd s cur] I1 set by simp
  moreover have "fcost cur \<le> fcost n" using min n(1) by blast
  ultimately show "gcost cur + 1 \<le> int (length q)" using n(2) by (simp add: nkey_def)
qed

lemma round_searchInv:
  assumes I: "searchInv brd fd s O1 C C" and s: "sort_key fcost O1 = cur # rest"
    and ex: "explore brd fd cur (insert (nkey cur) C) rest moves = Inr O2"
  shows "searchInv brd fd s O2 (insert (nkey cur) C) (insert (nkey cur) C)"
proof -
  let ?C = "insert (nkey cur) C"
  have set: "set O1 = insert cur (set rest)" using s by (metis list.simps(15) set_sort)
  have wc: "wfNode brd fd s cur" using I set unfolding searchInv_def by simp
  note P = pop_searchInv [OF I s]
  note E = explore_searchInv [OF ex P wc subset_refl]
  from E have J: "searchInv brd fd s O2 ?C C" by simp
  have opt: "below brd s (nkey cur) (gcost cur + 1)" by (rule pop_optimal [OF I s])
  have J1: "\<forall>n \<in> set O2. wfNode brd fd s n" and J2: "distinct (map nkey O2)"
    and J3: "nkey ` set O2 \<inter> ?C = {}"
    and J4: "s \<in> ?C \<or> (\<exists>n \<in> set O2. nkey n = s \<and> gcost n \<le> 0)"
    and J5: "\<forall>u \<in> C. \<forall>v. adjacent4 u v \<and> passable brd v \<longrightarrow>
            v \<in> ?C \<or> (\<exists>n \<in> set O2. nkey n = v \<and> below brd s u (gcost n))"
    using J unfolding searchInv_def by simp_all
  have nb: "\<forall>u \<in> ?C. \<forall>v. adjacent4 u v \<and> passable brd v \<longrightarrow>
            v \<in> ?C \<or> (\<exists>n \<in> set O2. nkey n = v \<and> below brd s u (gcost n))"
  proof (intro ballI allI impI)
    fix u v assume u: "u \<in> ?C" and av: "adjacent4 u v \<and> passable brd v"
    show "v \<in> ?C \<or> (\<exists>n \<in> set O2. nkey n = v \<and> below brd s u (gcost n))"
    proof (cases "u = nkey cur")
      case False
      then show ?thesis using J5 u av by blast
    next
      case True
      then obtain mv where mv: "mv \<in> set moves"
          "v = (nrow cur + fst (snd mv), ncol cur + snd (snd mv))"
        using av unfolding adjacent4_moves by (auto simp: nkey_def)
      then have "v \<in> ?C \<or> (\<exists>n \<in> set O2. nkey n = v \<and> gcost n \<le> gcost cur + 1)"
        using E av by blast
      then show ?thesis
      proof
        assume "\<exists>n \<in> set O2. nkey n = v \<and> gcost n \<le> gcost cur + 1"
        then obtain n where n: "n \<in> set O2" "nkey n = v" "gcost n \<le> gcost cur + 1" by blast
        have "below brd s u (gcost n)" unfolding True by (rule below_mono [OF opt n(3)])
        then show ?thesis using n by blast
      qed simp
    qed
  qed
  show ?thesis unfolding searchInv_def using J1 J2 J3 J4 nb by simp
qed

lemma isValid_rectangular:
  assumes "rectangular brd"
  shows "\<exists>b. isValid brd r c = Inr b"
proof (cases "r < 0 \<or> r \<ge> int (length brd) \<or> c < 0
              \<or> c \<ge> (case brd of [] \<Rightarrow> 0 | first # _ \<Rightarrow> int (length first))")
  case True
  then show ?thesis unfolding isValid_def Let_def by auto
next
  case False
  then have r: "nat r < length brd" and ne: "brd \<noteq> []" by auto
  then have "brd ! nat r \<in> set brd" by simp
  then have "length (brd ! nat r) = length (hd brd)" using assms unfolding rectangular_def by blast
  moreover have "c < int (length (hd brd))" "0 \<le> c" using False ne by (cases brd; auto)+
  ultimately have "nat c < length (brd ! nat r)" by simp
  then show ?thesis using False unfolding isValid_def Let_def by auto
qed

lemma visit_rectangular:
  assumes "rectangular brd"
  shows "\<exists>O2. visit brd fd cur C O1 mv = Inr O2"
proof -
  obtain b where "isValid brd (nrow cur + fst (snd mv)) (ncol cur + snd (snd mv)) = Inr b"
    using isValid_rectangular [OF assms] by blast
  then show ?thesis unfolding visit_def Let_def by (auto split: option.splits)
qed

lemma explore_rectangular:
  assumes "rectangular brd"
  shows "\<exists>O2. explore brd fd cur C O1 mvs = Inr O2"
proof (induction mvs arbitrary: O1)
  case Nil
  show ?case by simp
next
  case (Cons mv mvs)
  obtain O' where "visit brd fd cur C O1 mv = Inr O'"
    using visit_rectangular [OF assms] by blast
  then show ?case using Cons.IH [of O'] by simp
qed

lemma nkey_Node: "nkey (Node r c g h f p) = (r, c)"
  by (simp add: nkey_def)

lemma ancestors_nonempty: "ancestors n \<noteq> []"
  by (cases n) simp

lemma ancestors_walk:
  "wfNode brd fd s n \<Longrightarrow>
   walkTo brd s (nkey n) (map nkey (rev (ancestors n)))
   \<and> int (length (ancestors n)) = gcost n + 1"
proof (induction n rule: ancestors.induct)
  case (1 r c g h f p)
  show ?case
  proof (cases p)
    case None
    then show ?thesis using "1.prems" by (simp add: nkey_Node walkTo_def passableWalk_def)
  next
    case (Some q)
    then have wq: "wfNode brd fd s q" and adj: "adjacent4 (nkey q) (r, c)"
      and pv: "passable brd (r, c)" and g: "g = gcost q + 1"
      using "1.prems" by simp_all
    note IH = "1.IH" [OF Some wq]
    from IH have "walkTo brd s (nkey q) (map nkey (rev (ancestors q)))" by simp
    from walkTo_extend [OF this adj pv]
    have "walkTo brd s (r, c) (map nkey (rev (ancestors q)) @ [(r, c)])" .
    then show ?thesis using IH g Some by (simp add: nkey_Node)
  qed
qed

lemma wfNode_gcost_0: "wfNode brd fd s n \<Longrightarrow> gcost n = 0 \<Longrightarrow> nkey n = s"
proof (cases n)
  case (Node r c g h f p)
  assume w: "wfNode brd fd s n" and z: "gcost n = 0"
  show ?thesis
  proof (cases p)
    case None
    then show ?thesis using w Node by (simp add: nkey_def)
  next
    case (Some q)
    then have wq: "wfNode brd fd s q" and g: "g = gcost q + 1" using w Node by simp_all
    have "int (length (ancestors q)) = gcost q + 1" using ancestors_walk [OF wq] by simp
    moreover have "length (ancestors q) \<noteq> 0" using ancestors_nonempty [of q] by simp
    ultimately have "0 \<le> gcost q" by linarith
    then show ?thesis using z Node g by simp
  qed
qed

lemma walkTo_second:
  assumes "walkTo brd s t p" "2 \<le> length p"
  shows "adjacent4 s (p ! 1) \<and> passable brd (p ! 1)"
proof -
  obtain a b rest where p: "p = a # b # rest"
    using assms(2) by (cases p; cases "tl p") auto
  show ?thesis using assms(1) unfolding p walkTo_def passableWalk_def by auto
qed

lemma atFood_elsewhere: "nkey cur \<noteq> (row fd, col fd) \<Longrightarrow> atFood fd start cur = None"
  by (auto simp: atFood_def nkey_def)

lemma atFood_start:
  "nkey cur = (row fd, col fd) \<Longrightarrow> length (ancestors cur) < 2 \<Longrightarrow> atFood fd start cur = Some None"
  by (simp add: atFood_def nkey_def)

lemma atFood_direction:
  assumes k: "nkey cur = (row fd, col fd)" and l: "2 \<le> length (ancestors cur)"
    and adj: "adjacent4 (row start, col start) (map nkey (rev (ancestors cur)) ! 1)"
  shows "\<exists>d. atFood fd start cur = Some (Some (rev (ancestors cur), d))
            \<and> neighbour (row start, col start) d = map nkey (rev (ancestors cur)) ! 1"
proof -
  let ?path = "rev (ancestors cur)"
  let ?n = "?path ! 1"
  have n: "map nkey ?path ! 1 = (nrow ?n, ncol ?n)" using l by (simp add: nkey_def)
  have a: "\<bar>row start - nrow ?n\<bar> + \<bar>col start - ncol ?n\<bar> = 1"
    using adj unfolding n adjacent4_def by simp
  consider (up) "nrow ?n < row start"
    | (down) "\<not> nrow ?n < row start" "nrow ?n > row start"
    | (left) "nrow ?n = row start" "ncol ?n < col start"
    | (right) "nrow ?n = row start" "\<not> ncol ?n < col start" "ncol ?n > col start"
    using a by linarith
  then show ?thesis
  proof cases
    case up
    then have "neighbour (row start, col start) UP = (nrow ?n, ncol ?n)" using a by auto
    then show ?thesis using up k l unfolding n
      by (intro exI [of _ UP]) (simp add: atFood_def nkey_def Let_def)
  next
    case down
    then have "neighbour (row start, col start) DOWN = (nrow ?n, ncol ?n)" using a by auto
    then show ?thesis using down k l unfolding n
      by (intro exI [of _ DOWN]) (simp add: atFood_def nkey_def Let_def)
  next
    case left
    then have "neighbour (row start, col start) LEFT = (nrow ?n, ncol ?n)" using a by auto
    then show ?thesis using left k l unfolding n
      by (intro exI [of _ LEFT]) (simp add: atFood_def nkey_def Let_def)
  next
    case right
    then have "neighbour (row start, col start) RIGHT = (nrow ?n, ncol ?n)" using a by auto
    then show ?thesis using right k l unfolding n
      by (intro exI [of _ RIGHT]) (simp add: atFood_def nkey_def Let_def)
  qed
qed

lemma search_Nil: "search brd fd start [] C = Inr None"
  by (subst search.simps) simp

lemma search_pop:
  assumes "sort_key fcost O1 = cur # rest"
  shows "search brd fd start O1 C =
     (case atFood fd start cur of
        Some result \<Rightarrow> Inr result
      | None \<Rightarrow>
          (case explore brd fd cur (insert (nkey cur) C) rest moves of
             Inl e \<Rightarrow> Inl e
           | Inr O2 \<Rightarrow> search brd fd start O2 (insert (nkey cur) C)))"
proof -
  have "O1 \<noteq> []" using assms by auto
  then show ?thesis
    by (subst search.simps)
      (auto simp: assms Let_def coordKey_def nkey_def split: option.splits sum.splits)
qed

text \<open>What the search returns from a state that satisfies the invariant.\<close>

lemma search_correct:
  "searchInv brd fd (row start, col start) O1 C C \<Longrightarrow>
   (row fd, col fd) \<notin> C \<Longrightarrow>
   ((\<exists>e. search brd fd start O1 C = Inl e) \<and> \<not> rectangular brd)
   \<or> (search brd fd start O1 C = Inr None
      \<and> ((row start, col start) = (row fd, col fd)
           \<or> (\<forall>q. \<not> walkTo brd (row start, col start) (row fd, col fd) q)))
   \<or> (\<exists>path d. search brd fd start O1 C = Inr (Some (path, d))
         \<and> (row start, col start) \<noteq> (row fd, col fd)
         \<and> walkTo brd (row start, col start) (row fd, col fd) (map nkey path)
         \<and> (\<forall>q. walkTo brd (row start, col start) (row fd, col fd) q \<longrightarrow> length path \<le> length q)
         \<and> 2 \<le> length path
         \<and> map nkey path ! 1 = neighbour (row start, col start) d)"
proof (induction brd fd start O1 C rule: search.induct)
  case (1 brd fd start openSet closedSet)
  let ?s = "(row start, col start)" and ?t = "(row fd, col fd)"
  note I = "1.prems"(1) and tC = "1.prems"(2)
  show ?case
  proof (cases "openSet = []")
    case True
    have "\<not> walkTo brd ?s ?t q" for q
    proof
      assume "walkTo brd ?s ?t q"
      from frontier [OF I this tC] show False using True by simp
    qed
    then show ?thesis using True search_Nil by simp
  next
    case ne: False
    then obtain cur rest where s: "sort_key fcost openSet = cur # rest"
      by (cases "sort_key fcost openSet") (auto dest: arg_cong [where f = length])
    have set: "set openSet = insert cur (set rest)" using s by (metis list.simps(15) set_sort)
    have wc: "wfNode brd fd ?s cur" using I set unfolding searchInv_def by simp
    note AW = ancestors_walk [OF wc]
    let ?path = "rev (ancestors cur)"
    have len: "int (length ?path) = gcost cur + 1" using AW by simp
    have opt: "below brd ?s (nkey cur) (gcost cur + 1)" by (rule pop_optimal [OF I s])
    note unfold = search_pop [OF s, of brd fd start closedSet]
    show ?thesis
    proof (cases "nkey cur = ?t")
      case at: True
      have walk: "walkTo brd ?s ?t (map nkey ?path)" using AW at by simp
      show ?thesis
      proof (cases "length (ancestors cur) < 2")
        case True
        have "atFood fd start cur = Some None" by (rule atFood_start [OF at True])
        then have res: "search brd fd start openSet closedSet = Inr None"
          using unfold by simp
        have "length (ancestors cur) \<noteq> 0" using ancestors_nonempty [of cur] by simp
        then have "length (ancestors cur) = 1" using True by linarith
        then have "gcost cur = 0" using len by simp
        then have "nkey cur = ?s" by (rule wfNode_gcost_0 [OF wc])
        then show ?thesis using res at by simp
      next
        case False
        then have l2: "2 \<le> length (ancestors cur)" by simp
        then have l2': "2 \<le> length (map nkey ?path)" by simp
        have adj: "adjacent4 ?s (map nkey ?path ! 1)"
          using walkTo_second [OF walk l2'] by simp
        obtain d where d: "atFood fd start cur = Some (Some (?path, d))"
            "neighbour ?s d = map nkey ?path ! 1"
          using atFood_direction [OF at l2 adj] by blast
        have res: "search brd fd start openSet closedSet = Inr (Some (?path, d))"
          using unfold d(1) by simp
        have differ: "?s \<noteq> ?t"
        proof
          assume eq: "?s = ?t"
          have "walkTo brd ?s (nkey cur) [?s]" unfolding at eq [symmetric] by (rule walkTo_single)
          then have "gcost cur + 1 \<le> int (length [?s])" using opt unfolding below_def by blast
          then show False using len l2 by simp
        qed
        have least: "\<forall>q. walkTo brd ?s ?t q \<longrightarrow> length ?path \<le> length q"
        proof (intro allI impI)
          fix q assume "walkTo brd ?s ?t q"
          then have "gcost cur + 1 \<le> int (length q)" using opt unfolding below_def at by blast
          then show "length ?path \<le> length q" using len by linarith
        qed
        have "search brd fd start openSet closedSet = Inr (Some (?path, d))
                \<and> ?s \<noteq> ?t \<and> walkTo brd ?s ?t (map nkey ?path)
                \<and> (\<forall>q. walkTo brd ?s ?t q \<longrightarrow> length ?path \<le> length q)
                \<and> 2 \<le> length ?path \<and> map nkey ?path ! 1 = neighbour ?s d"
          using res differ walk least d(2) l2 by simp
        then show ?thesis by (intro disjI2 exI [of _ ?path] exI [of _ d])
      qed
    next
      case away: False
      have no: "atFood fd start cur = None" by (rule atFood_elsewhere [OF away])
      show ?thesis
      proof (cases "explore brd fd cur (insert (nkey cur) closedSet) rest moves")
        case (Inl e)
        then have "search brd fd start openSet closedSet = Inl e" using unfold no by simp
        moreover have "\<not> rectangular brd"
        proof
          assume "rectangular brd"
          from explore_rectangular [OF this, of fd cur "insert (nkey cur) closedSet" rest moves]
          show False using Inl by simp
        qed
        ultimately show ?thesis by blast
      next
        case (Inr O2)
        note ex = Inr
        have res: "search brd fd start openSet closedSet
                     = search brd fd start O2 (insert (nkey cur) closedSet)"
          using unfold no ex by simp
        have I': "searchInv brd fd ?s O2 (insert (nkey cur) closedSet) (insert (nkey cur) closedSet)"
          by (rule round_searchInv [OF I s ex])
        have tC': "?t \<notin> insert (nkey cur) closedSet" using tC away by auto
        have hd: "hd (sort_key fcost openSet) = cur" and tl: "tl (sort_key fcost openSet) = rest"
          using s by simp_all
        have key: "insert (coordKey (nrow cur) (ncol cur)) closedSet = insert (nkey cur) closedSet"
          by (simp add: coordKey_def nkey_def)
        have no': "atFood fd start (hd (sort_key fcost openSet)) = None" using no hd by simp
        have ex': "explore brd fd (hd (sort_key fcost openSet))
                     (insert (coordKey (nrow (hd (sort_key fcost openSet)))
                        (ncol (hd (sort_key fcost openSet)))) closedSet)
                     (tl (sort_key fcost openSet)) moves = Inr O2"
          using ex unfolding hd tl key .
        note IH = "1.IH" [OF ne refl refl refl refl no' ex']
        show ?thesis
          using IH [unfolded hd tl key, OF I' tC'] unfolding res .
      qed
    qed
  qed
qed

lemma searchInv_initial: "searchInv brd fd (row start, col start) [startNode fd start] {} {}"
  by (simp add: searchInv_def startNode_def nkey_def)

lemma findPath_correct:
  "((\<exists>e. findPath brd (start # rest) fd = Inl e) \<and> \<not> rectangular brd)
   \<or> (findPath brd (start # rest) fd = Inr None
      \<and> ((row start, col start) = (row fd, col fd)
           \<or> (\<forall>q. \<not> walkTo brd (row start, col start) (row fd, col fd) q)))
   \<or> (\<exists>path d. findPath brd (start # rest) fd = Inr (Some (path, d))
         \<and> (row start, col start) \<noteq> (row fd, col fd)
         \<and> walkTo brd (row start, col start) (row fd, col fd) (map nkey path)
         \<and> (\<forall>q. walkTo brd (row start, col start) (row fd, col fd) q \<longrightarrow> length path \<le> length q)
         \<and> 2 \<le> length path
         \<and> map nkey path ! 1 = neighbour (row start, col start) d)"
  using search_correct [OF searchInv_initial, of fd brd start]
  by (simp add: findPath_def)

lemma passable_iff:
  "passable brd (r, c) \<longleftrightarrow>
     0 \<le> r \<and> r < int (length brd) \<and> 0 \<le> c \<and> c < int (length (hd brd))
     \<and> nat c < length (brd ! nat r)
     \<and> (type (brd ! nat r ! nat c) = EMPTY \<or> type (brd ! nat r ! nat c) = FOOD)"
  by (cases brd) (auto simp: passable_def isValid_def Let_def)

lemma findShortestWayToFood_Some:
  "findShortestWayToFood brd snk fd = Inr (Some d) \<longleftrightarrow> (\<exists>path. findPath brd snk fd = Inr (Some (path, d)))"
  by (auto simp: findShortestWayToFood_def split: sum.splits)

lemma findShortestWayToFood_None:
  "findShortestWayToFood brd snk fd = Inr None \<longleftrightarrow> findPath brd snk fd = Inr None"
  by (auto simp: findShortestWayToFood_def split: sum.splits)

lemma findShortestWayToFood_Inl:
  "findShortestWayToFood brd snk fd = Inl e \<longleftrightarrow> findPath brd snk fd = Inl e"
  by (auto simp: findShortestWayToFood_def split: sum.splits)
section \<open>Claims about the simulation step\<close>

text \<open>
  Claim C2. A non-empty body whose cells are pairwise distinct and whose consecutive
  cells are 4-adjacent stays so across a step, and keeps at least one cell. For \<open>move\<close>
  this holds of the body in the state after the call, whatever the outcome (on a
  collision the state is the one before the call); for \<open>moveSnake\<close> it holds of every
  body the function returns, that is, whenever it does not return \<open>null\<close>.
\<close>

theorem step_preserves_body_invariant:
  "(snake s \<noteq> [] \<and> wellFormed (snake s) \<longrightarrow>
      wellFormed (snake (state (move I J s))) \<and> length (snake (state (move I J s))) \<ge> 1)
   \<and> (body \<noteq> [] \<and> wellFormed body \<and> moveSnake fd body d t = Some body' \<longrightarrow>
      wellFormed body' \<and> length body' \<ge> 1)"
  using move_keeps_wellFormed moveSnake_keeps_wellFormed by blast

theorem step_preserves_body_invariant_witness:
  "wellFormed (snake (state (move 5 5
      \<lparr>board = initBoard 5 5, snake = [\<lparr>row = 2, col = 2, type = SNAKE\<rparr>, \<lparr>row = 2, col = 1, type = SNAKE\<rparr>],
       food = Some \<lparr>row = 2, col = 4, type = FOOD\<rparr>, direction = RIGHT\<rparr>)))
   \<and> moveSnake None [\<lparr>row = 10, col = 2, type = PLAYER_ONE\<rparr>] RIGHT PLAYER_ONE
       = Some [\<lparr>row = 10, col = 3, type = PLAYER_ONE\<rparr>]
   \<and> wellFormed [\<lparr>row = 10, col = 3, type = PLAYER_ONE\<rparr>]"
  using step_preserves_body_invariant [of
      "\<lparr>board = initBoard 5 5, snake = [\<lparr>row = 2, col = 2, type = SNAKE\<rparr>, \<lparr>row = 2, col = 1, type = SNAKE\<rparr>],
       food = Some \<lparr>row = 2, col = 4, type = FOOD\<rparr>, direction = RIGHT\<rparr>" 5 5
      "[\<lparr>row = 10, col = 2, type = PLAYER_ONE\<rparr>]" None RIGHT PLAYER_ONE
      "[\<lparr>row = 10, col = 3, type = PLAYER_ONE\<rparr>]"]
  by (simp add: wellFormed_def cells_def adjacent4_def moveSnake_def hitsWall_def occupies_def
        ateFood_def BOARD_ROWS_def BOARD_COLS_def)

text \<open>
  Claim C3. For a non-empty body and a new head that is inside the board and on no cell
  of the body: if the new head is on the food cell, the new body is the new head in front
  of the whole old body, one cell longer, and \<open>move\<close> clears the food; otherwise the new
  body is the new head in front of the old body without its last cell, of the same
  length, and \<open>move\<close> leaves the food as it was. \<open>moveSnake\<close> returns the same bodies (the
  two-player page clears the food in its game loop, not in \<open>moveSnake\<close>).
\<close>

theorem food_consumption:
  "(snake s = h0 # rest \<and> nh = advance h0 (direction s) SNAKE
      \<and> 0 \<le> row nh \<and> row nh < I \<and> 0 \<le> col nh \<and> col nh < J
      \<and> (row nh, col nh) \<notin> set (cells (snake s)) \<longrightarrow>
      (if \<exists>f. food s = Some f \<and> row nh = row f \<and> col nh = col f
       then snake (state (move I J s)) = nh # snake s
          \<and> food (state (move I J s)) = None
          \<and> length (snake (state (move I J s))) = length (snake s) + 1
       else snake (state (move I J s)) = nh # butlast (snake s)
          \<and> food (state (move I J s)) = food s
          \<and> length (snake (state (move I J s))) = length (snake s)))
   \<and> (body = b0 # rest' \<and> nh' = advance b0 d t
      \<and> 0 \<le> row nh' \<and> row nh' < BOARD_ROWS \<and> 0 \<le> col nh' \<and> col nh' < BOARD_COLS
      \<and> (row nh', col nh') \<notin> set (cells body) \<longrightarrow>
      (if \<exists>f. fd = Some f \<and> row nh' = row f \<and> col nh' = col f
       then moveSnake fd body d t = Some (nh' # body)
       else moveSnake fd body d t = Some (nh' # butlast body)))"
proof (intro conjI impI)
  assume a: "snake s = h0 # rest \<and> nh = advance h0 (direction s) SNAKE
      \<and> 0 \<le> row nh \<and> row nh < I \<and> 0 \<le> col nh \<and> col nh < J
      \<and> (row nh, col nh) \<notin> set (cells (snake s))"
  then have b: "snake s = h0 # rest" and n: "nh = advance h0 (direction s) SNAKE"
    and w: "\<not> hitsWall I J nh" and o: "\<not> occupies (snake s) (row nh) (col nh)"
    by (auto simp: hitsWall_def occupies_cells)
  have e: "ateFood nh (food s) \<longleftrightarrow> (\<exists>f. food s = Some f \<and> row nh = row f \<and> col nh = col f)"
    by (auto simp: ateFood_def split: option.splits)
  show "if \<exists>f. food s = Some f \<and> row nh = row f \<and> col nh = col f
       then snake (state (move I J s)) = nh # snake s
          \<and> food (state (move I J s)) = None
          \<and> length (snake (state (move I J s))) = length (snake s) + 1
       else snake (state (move I J s)) = nh # butlast (snake s)
          \<and> food (state (move I J s)) = food s
          \<and> length (snake (state (move I J s))) = length (snake s)"
    unfolding e [symmetric] using b
    by (simp add: move_advances(1,2) [OF b n w o] butlast_conv_take)
next
  assume a: "body = b0 # rest' \<and> nh' = advance b0 d t
      \<and> 0 \<le> row nh' \<and> row nh' < BOARD_ROWS \<and> 0 \<le> col nh' \<and> col nh' < BOARD_COLS
      \<and> (row nh', col nh') \<notin> set (cells body)"
  then have b: "body = b0 # rest'" and n: "nh' = advance b0 d t"
    and w: "\<not> hitsWall BOARD_ROWS BOARD_COLS nh'" and o: "\<not> occupies body (row nh') (col nh')"
    by (auto simp: hitsWall_def occupies_cells)
  have e: "ateFood nh' fd \<longleftrightarrow> (\<exists>f. fd = Some f \<and> row nh' = row f \<and> col nh' = col f)"
    by (auto simp: ateFood_def split: option.splits)
  show "if \<exists>f. fd = Some f \<and> row nh' = row f \<and> col nh' = col f
       then moveSnake fd body d t = Some (nh' # body)
       else moveSnake fd body d t = Some (nh' # butlast body)"
    unfolding e [symmetric] using w o unfolding b n moveSnake_Cons Let_def
    by (simp add: butlast_conv_take)
qed


theorem food_consumption_witness:
  "snake (state (move 5 5
      \<lparr>board = initBoard 5 5, snake = [\<lparr>row = 2, col = 3, type = SNAKE\<rparr>],
       food = Some \<lparr>row = 2, col = 4, type = FOOD\<rparr>, direction = RIGHT\<rparr>))
     = [\<lparr>row = 2, col = 4, type = SNAKE\<rparr>, \<lparr>row = 2, col = 3, type = SNAKE\<rparr>]
   \<and> food (state (move 5 5
      \<lparr>board = initBoard 5 5, snake = [\<lparr>row = 2, col = 3, type = SNAKE\<rparr>],
       food = Some \<lparr>row = 2, col = 4, type = FOOD\<rparr>, direction = RIGHT\<rparr>)) = None
   \<and> moveSnake None [\<lparr>row = 10, col = 2, type = PLAYER_ONE\<rparr>, \<lparr>row = 10, col = 1, type = PLAYER_ONE\<rparr>]
         RIGHT PLAYER_ONE
     = Some [\<lparr>row = 10, col = 3, type = PLAYER_ONE\<rparr>, \<lparr>row = 10, col = 2, type = PLAYER_ONE\<rparr>]"
  using food_consumption [where s = "\<lparr>board = initBoard 5 5, snake = [\<lparr>row = 2, col = 3, type = SNAKE\<rparr>],
       food = Some \<lparr>row = 2, col = 4, type = FOOD\<rparr>, direction = RIGHT\<rparr>"
      and ?h0.0 = "\<lparr>row = 2, col = 3, type = SNAKE\<rparr>" and rest = "[]"
      and nh = "\<lparr>row = 2, col = 4, type = SNAKE\<rparr>" and I = 5 and J = 5
      and body = "[\<lparr>row = 10, col = 2, type = PLAYER_ONE\<rparr>, \<lparr>row = 10, col = 1, type = PLAYER_ONE\<rparr>]"
      and ?b0.0 = "\<lparr>row = 10, col = 2, type = PLAYER_ONE\<rparr>"
      and rest' = "[\<lparr>row = 10, col = 1, type = PLAYER_ONE\<rparr>]"
      and nh' = "\<lparr>row = 10, col = 3, type = PLAYER_ONE\<rparr>" and d = RIGHT and t = PLAYER_ONE
      and fd = None]
  by (simp add: cells_def BOARD_ROWS_def BOARD_COLS_def)

text \<open>
  Claim C4. When the new head has row below 0, row at least R, column below 0 or column
  at least C, the step ends with the wall outcome, whatever the body and the food are:
  \<open>move\<close> logs "Game Over: Hit wall" and changes nothing, \<open>moveSnake\<close> returns \<open>null\<close>.
  Nothing is assumed about the body or the food, so the wall test is decided before
  the self-collision and food tests.
\<close>

theorem wall_collision:
  "(snake s = h0 # rest \<and> nh = advance h0 (direction s) SNAKE
      \<and> (row nh < 0 \<or> row nh \<ge> I \<or> col nh < 0 \<or> col nh \<ge> J) \<longrightarrow>
      move I J s = \<lparr>console = [''Game Over: Hit wall''], uncaught = None, state = s\<rparr>)
   \<and> (nh' = advance b0 d t
      \<and> (row nh' < 0 \<or> row nh' \<ge> BOARD_ROWS \<or> col nh' < 0 \<or> col nh' \<ge> BOARD_COLS) \<longrightarrow>
      moveSnake fd (b0 # rest') d t = None)"
proof (intro conjI impI)
  assume a: "snake s = h0 # rest \<and> nh = advance h0 (direction s) SNAKE
      \<and> (row nh < 0 \<or> row nh \<ge> I \<or> col nh < 0 \<or> col nh \<ge> J)"
  then have "hitsWall I J (advance h0 (direction s) SNAKE)" by (auto simp: hitsWall_def)
  with a show "move I J s = \<lparr>console = [''Game Over: Hit wall''], uncaught = None, state = s\<rparr>"
    by (simp add: move_hitsWall)
next
  assume a: "nh' = advance b0 d t
      \<and> (row nh' < 0 \<or> row nh' \<ge> BOARD_ROWS \<or> col nh' < 0 \<or> col nh' \<ge> BOARD_COLS)"
  then have "hitsWall BOARD_ROWS BOARD_COLS (advance b0 d t)" by (auto simp: hitsWall_def)
  then show "moveSnake fd (b0 # rest') d t = None"
    by (simp add: moveSnake_Cons)
qed

theorem wall_collision_witness:
  "move 5 5 \<lparr>board = initBoard 5 5, snake = [\<lparr>row = 0, col = 0, type = SNAKE\<rparr>, \<lparr>row = 0, col = -1, type = SNAKE\<rparr>],
       food = Some \<lparr>row = 0, col = -1, type = FOOD\<rparr>, direction = LEFT\<rparr>
     = \<lparr>console = [''Game Over: Hit wall''], uncaught = None,
        state = \<lparr>board = initBoard 5 5, snake = [\<lparr>row = 0, col = 0, type = SNAKE\<rparr>, \<lparr>row = 0, col = -1, type = SNAKE\<rparr>],
       food = Some \<lparr>row = 0, col = -1, type = FOOD\<rparr>, direction = LEFT\<rparr>\<rparr>
   \<and> moveSnake None [\<lparr>row = 0, col = 0, type = PLAYER_ONE\<rparr>, \<lparr>row = 0, col = 1, type = PLAYER_ONE\<rparr>]
         LEFT PLAYER_ONE = None"
  using wall_collision [where s = "\<lparr>board = initBoard 5 5,
         snake = [\<lparr>row = 0, col = 0, type = SNAKE\<rparr>, \<lparr>row = 0, col = -1, type = SNAKE\<rparr>],
         food = Some \<lparr>row = 0, col = -1, type = FOOD\<rparr>, direction = LEFT\<rparr>"
      and ?h0.0 = "\<lparr>row = 0, col = 0, type = SNAKE\<rparr>"
      and rest = "[\<lparr>row = 0, col = -1, type = SNAKE\<rparr>]"
      and nh = "\<lparr>row = 0, col = -1, type = SNAKE\<rparr>" and I = 5 and J = 5
      and ?b0.0 = "\<lparr>row = 0, col = 0, type = PLAYER_ONE\<rparr>"
      and rest' = "[\<lparr>row = 0, col = 1, type = PLAYER_ONE\<rparr>]"
      and nh' = "\<lparr>row = 0, col = -1, type = PLAYER_ONE\<rparr>" and d = LEFT and t = PLAYER_ONE
      and fd = None]
  by simp

text \<open>
  Claim C5. When the new head is inside the board and on any cell of the body before
  the move, the last cell included, the step ends with the self-collision outcome and
  the body does not advance: \<open>move\<close> logs "Game Over: Hit itself" and changes nothing,
  \<open>moveSnake\<close> returns \<open>null\<close>.
\<close>

theorem self_collision:
  "(snake s = h0 # rest \<and> nh = advance h0 (direction s) SNAKE
      \<and> 0 \<le> row nh \<and> row nh < I \<and> 0 \<le> col nh \<and> col nh < J
      \<and> (row nh, col nh) \<in> set (cells (snake s)) \<longrightarrow>
      move I J s = \<lparr>console = [''Game Over: Hit itself''], uncaught = None, state = s\<rparr>)
   \<and> (body = b0 # rest' \<and> nh' = advance b0 d t
      \<and> 0 \<le> row nh' \<and> row nh' < BOARD_ROWS \<and> 0 \<le> col nh' \<and> col nh' < BOARD_COLS
      \<and> (row nh', col nh') \<in> set (cells body) \<longrightarrow>
      moveSnake fd body d t = None)"
proof (intro conjI impI)
  assume a: "snake s = h0 # rest \<and> nh = advance h0 (direction s) SNAKE
      \<and> 0 \<le> row nh \<and> row nh < I \<and> 0 \<le> col nh \<and> col nh < J
      \<and> (row nh, col nh) \<in> set (cells (snake s))"
  then have b: "snake s = h0 # rest"
    and w: "\<not> hitsWall I J (advance h0 (direction s) SNAKE)"
    and o: "occupies (snake s) (row (advance h0 (direction s) SNAKE))
              (col (advance h0 (direction s) SNAKE))"
    by (auto simp: hitsWall_def occupies_cells)
  show "move I J s = \<lparr>console = [''Game Over: Hit itself''], uncaught = None, state = s\<rparr>"
    by (rule move_hitsSelf [OF b w o])
next
  assume a: "body = b0 # rest' \<and> nh' = advance b0 d t
      \<and> 0 \<le> row nh' \<and> row nh' < BOARD_ROWS \<and> 0 \<le> col nh' \<and> col nh' < BOARD_COLS
      \<and> (row nh', col nh') \<in> set (cells body)"
  then have b: "body = b0 # rest'"
    and w: "\<not> hitsWall BOARD_ROWS BOARD_COLS (advance b0 d t)"
    and o: "occupies (b0 # rest') (row (advance b0 d t)) (col (advance b0 d t))"
    by (auto simp: hitsWall_def occupies_cells)
  show "moveSnake fd body d t = None"
    using w o unfolding b moveSnake_Cons Let_def by simp
qed

theorem self_collision_witness:
  "move 5 5 \<lparr>board = initBoard 5 5,
       snake = [\<lparr>row = 1, col = 1, type = SNAKE\<rparr>, \<lparr>row = 1, col = 2, type = SNAKE\<rparr>,
                \<lparr>row = 2, col = 2, type = SNAKE\<rparr>, \<lparr>row = 2, col = 1, type = SNAKE\<rparr>],
       food = None, direction = DOWN\<rparr>
     = \<lparr>console = [''Game Over: Hit itself''], uncaught = None,
        state = \<lparr>board = initBoard 5 5,
          snake = [\<lparr>row = 1, col = 1, type = SNAKE\<rparr>, \<lparr>row = 1, col = 2, type = SNAKE\<rparr>,
                   \<lparr>row = 2, col = 2, type = SNAKE\<rparr>, \<lparr>row = 2, col = 1, type = SNAKE\<rparr>],
          food = None, direction = DOWN\<rparr>\<rparr>
   \<and> moveSnake None [\<lparr>row = 1, col = 1, type = PLAYER_TWO\<rparr>, \<lparr>row = 1, col = 2, type = PLAYER_TWO\<rparr>,
                \<lparr>row = 2, col = 2, type = PLAYER_TWO\<rparr>, \<lparr>row = 2, col = 1, type = PLAYER_TWO\<rparr>]
         DOWN PLAYER_TWO = None"
  using self_collision [where s = "\<lparr>board = initBoard 5 5,
       snake = [\<lparr>row = 1, col = 1, type = SNAKE\<rparr>, \<lparr>row = 1, col = 2, type = SNAKE\<rparr>,
                \<lparr>row = 2, col = 2, type = SNAKE\<rparr>, \<lparr>row = 2, col = 1, type = SNAKE\<rparr>],
       food = None, direction = DOWN\<rparr>"
      and ?h0.0 = "\<lparr>row = 1, col = 1, type = SNAKE\<rparr>"
      and rest = "[\<lparr>row = 1, col = 2, type = SNAKE\<rparr>,
                \<lparr>row = 2, col = 2, type = SNAKE\<rparr>, \<lparr>row = 2, col = 1, type = SNAKE\<rparr>]"
      and nh = "\<lparr>row = 2, col = 1, type = SNAKE\<rparr>" and I = 5 and J = 5
      and body = "[\<lparr>row = 1, col = 1, type = PLAYER_TWO\<rparr>, \<lparr>row = 1, col = 2, type = PLAYER_TWO\<rparr>,
                \<lparr>row = 2, col = 2, type = PLAYER_TWO\<rparr>, \<lparr>row = 2, col = 1, type = PLAYER_TWO\<rparr>]"
      and ?b0.0 = "\<lparr>row = 1, col = 1, type = PLAYER_TWO\<rparr>"
      and rest' = "[\<lparr>row = 1, col = 2, type = PLAYER_TWO\<rparr>,
                \<lparr>row = 2, col = 2, type = PLAYER_TWO\<rparr>, \<lparr>row = 2, col = 1, type = PLAYER_TWO\<rparr>]"
      and nh' = "\<lparr>row = 2, col = 1, type = PLAYER_TWO\<rparr>" and d = DOWN and t = PLAYER_TWO
      and fd = None]
  by (simp add: cells_def BOARD_ROWS_def BOARD_COLS_def)

section \<open>Claim about food placement\<close>

text \<open>
  Claim C7 says that \<open>placeFood\<close>, with the random number as a parameter, chooses
  uniformly among the cells on which no snake has a segment: each of the \<open>n\<close> candidate
  cells on an interval \<open>[k/n, (k+1)/n)\<close> of the random number. The product
  \<open>Math.random() * emptyCells.length\<close> is a rounded double product. With three candidate
  cells, the double 6004799503160661 / 2 ^ 53 (printed 0.6666666666666666) lies in the
  interval \<open>[1/3, 2/3)\<close> of the second cell; its product with 3 rounds to 2, and the
  food goes to the third cell, (1, 1).
\<close>

theorem food_placement_counterexample:
  "isDouble (6004799503160661 / 2 ^ 53) \<and> 6004799503160661 / 2 ^ 53 < (1::real)
   \<and> food (state (placeFood 2 2 (6004799503160661 / 2 ^ 53)
           \<lparr>board = initBoard 2 2, snake = [\<lparr>row = 0, col = 1, type = SNAKE\<rparr>], food = None,
            direction = RIGHT\<rparr>)) = Some \<lparr>row = 1, col = 1, type = FOOD\<rparr>
   \<and> \<not> choosesUniformly (6004799503160661 / 2 ^ 53)
          (emptyCells 2 2 (occupies [\<lparr>row = 0, col = 1, type = SNAKE\<rparr>])) (Some (1, 1))"
proof -
  let ?rnd = "6004799503160661 / 2 ^ 53 :: real"
  let ?s = "\<lparr>board = initBoard 2 2, snake = [\<lparr>row = 0, col = 1, type = SNAKE\<rparr>], food = None,
       direction = RIGHT\<rparr>"
  let ?E = "[(0, 0), (1, 0), (1, 1)] :: (int \<times> int) list"
  have E: "emptyCells 2 2 (occupies [\<lparr>row = 0, col = 1, type = SNAKE\<rparr>]) = ?E"
    by code_simp
  have "round53 18014398509481983 = 18014398509481984" by code_simp
  then have "randomIndex ?rnd 3 = 2"
    using randomIndex_dyadic [of 6004799503160661 3 1021] by simp
  then have I: "randomIndex ?rnd (Suc (Suc (Suc 0))) = 2" by (simp add: numeral_3_eq_3)
  have D: "isDouble ?rnd"
    unfolding isDouble_def
    by (rule exI [of _ 6004799503160661], rule exI [of _ 1021]) simp
  have L: "?rnd < 1" by simp
  have b: "length (board ?s) = nat 2" "\<forall>rw \<in> set (board ?s). length rw = nat 2"
    by code_simp+
  have ne: "emptyCells 2 2 (occupies (snake ?s)) \<noteq> []" using E by simp
  from placeFood_places [OF ne D L b]
  have F: "food (state (placeFood 2 2 ?rnd ?s)) = Some \<lparr>row = 1, col = 1, type = FOOD\<rparr>"
    using E I by simp
  have "\<not> choosesUniformly ?rnd ?E (Some (1, 1))"
  proof
    assume "choosesUniformly ?rnd ?E (Some (1, 1))"
    then have "\<forall>k < length ?E. Some (1, 1) = Some (?E ! k)
                 \<longleftrightarrow> real k / real (length ?E) \<le> ?rnd \<and> ?rnd < (real k + 1) / real (length ?E)"
      unfolding choosesUniformly_def by blast
    from this [rule_format, of 1] show False by simp
  qed
  then show ?thesis unfolding F E using D L by simp
qed

text \<open>
  Claim C7, amended. With the random number \<open>rnd\<close>, a double of \<open>[0, 1)\<close>, as a parameter,
  \<open>placeFood\<close> chooses among exactly the cells of the board on which no snake has a
  segment, uniformly up to the rounding of the double product: the candidate list has
  no repetition and holds exactly those cells, what is placed is one of them, the
  \<open>k\<close>-th of the \<open>n\<close> candidates is chosen only if \<open>rnd * n\<close> lies in \<open>[k, k + 1)\<close> up to a
  relative error of \<open>2 ^ -53\<close> and whenever it lies there with that margin, and nothing
  is placed exactly when the list is empty, that is, when every cell is occupied. For
  the single-player page the call is the one its effect hook makes (no food yet) on a
  board of the declared size; the two-player page places over both bodies.
\<close>

theorem food_placement:
  assumes "isDouble rnd" "rnd < 1"
  shows "(food s = None \<and> length (board s) = nat I \<and> (\<forall>rw \<in> set (board s). length rw = nat J) \<longrightarrow>
            uncaught (placeFood I J rnd s) = None
            \<and> choosesNearlyUniformly rnd (emptyCells I J (occupies (snake s)))
                 (map_option (\<lambda>f. (row f, col f)) (food (state (placeFood I J rnd s)))))
         \<and> (\<exists>res. placeFoodTwo snakeOne snakeTwo rnd = Inr res
              \<and> choosesNearlyUniformly rnd
                   (emptyCells BOARD_ROWS BOARD_COLS
                      (\<lambda>r c. occupies snakeOne r c \<or> occupies snakeTwo r c))
                   (map_option (\<lambda>f. (row f, col f)) res))
         \<and> set (emptyCells I J (occupies (snake s)))
              = {(i, j). 0 \<le> i \<and> i < I \<and> 0 \<le> j \<and> j < J \<and> (i, j) \<notin> set (cells (snake s))}
         \<and> set (emptyCells BOARD_ROWS BOARD_COLS
                   (\<lambda>r c. occupies snakeOne r c \<or> occupies snakeTwo r c))
              = {(i, j). 0 \<le> i \<and> i < BOARD_ROWS \<and> 0 \<le> j \<and> j < BOARD_COLS
                   \<and> (i, j) \<notin> set (cells snakeOne) \<and> (i, j) \<notin> set (cells snakeTwo)}"
proof (intro conjI impI)
  let ?E = "emptyCells I J (occupies (snake s))"
  assume a: "food s = None \<and> length (board s) = nat I \<and> (\<forall>rw \<in> set (board s). length rw = nat J)"
  then have brd: "length (board s) = nat I" "\<forall>rw \<in> set (board s). length rw = nat J" by simp_all
  show "uncaught (placeFood I J rnd s) = None"
  proof (cases "?E = []")
    case True
    then show ?thesis by (simp add: placeFood_full)
  next
    case False
    from placeFood_places [OF False assms brd] show ?thesis by simp
  qed
  have "map_option (\<lambda>f. (row f, col f)) (food (state (placeFood I J rnd s)))
          = (if ?E = [] then None else Some (?E ! nat (randomIndex rnd (length ?E))))"
  proof (cases "?E = []")
    case True
    then show ?thesis using a by (simp add: placeFood_full)
  next
    case False
    from placeFood_places [OF False assms brd] show ?thesis using False by simp
  qed
  then show "choosesNearlyUniformly rnd ?E
                 (map_option (\<lambda>f. (row f, col f)) (food (state (placeFood I J rnd s))))"
    by (rule choosesNearlyUniformlyI [OF distinct_emptyCells assms])
next
  let ?E = "emptyCells BOARD_ROWS BOARD_COLS (\<lambda>r c. occupies snakeOne r c \<or> occupies snakeTwo r c)"
  let ?res = "if ?E = [] then None
              else Some \<lparr>row = fst (?E ! nat (randomIndex rnd (length ?E))),
                         col = snd (?E ! nat (randomIndex rnd (length ?E))), type = FOOD_TWO\<rparr>"
  have r: "placeFoodTwo snakeOne snakeTwo rnd = Inr ?res"
  proof (cases "?E = []")
    case True
    then show ?thesis by (simp add: placeFoodTwo_full)
  next
    case False
    from placeFoodTwo_places [OF False assms] show ?thesis using False by simp
  qed
  have "map_option (\<lambda>f. (row f, col f)) ?res
          = (if ?E = [] then None else Some (?E ! nat (randomIndex rnd (length ?E))))"
    by simp
  then have "choosesNearlyUniformly rnd ?E (map_option (\<lambda>f. (row f, col f)) ?res)"
    by (rule choosesNearlyUniformlyI [OF distinct_emptyCells assms])
  with r show "\<exists>res. placeFoodTwo snakeOne snakeTwo rnd = Inr res
              \<and> choosesNearlyUniformly rnd ?E (map_option (\<lambda>f. (row f, col f)) res)"
    by blast
next
  show "set (emptyCells I J (occupies (snake s)))
              = {(i, j). 0 \<le> i \<and> i < I \<and> 0 \<le> j \<and> j < J \<and> (i, j) \<notin> set (cells (snake s))}"
    unfolding set_emptyCells occupies_cells ..
next
  show "set (emptyCells BOARD_ROWS BOARD_COLS
                   (\<lambda>r c. occupies snakeOne r c \<or> occupies snakeTwo r c))
              = {(i, j). 0 \<le> i \<and> i < BOARD_ROWS \<and> 0 \<le> j \<and> j < BOARD_COLS
                   \<and> (i, j) \<notin> set (cells snakeOne) \<and> (i, j) \<notin> set (cells snakeTwo)}"
    unfolding set_emptyCells occupies_cells by simp
qed

theorem food_placement_witness:
  "map_option (\<lambda>f. (row f, col f))
     (food (state (placeFood 2 2 (1/2)
        \<lparr>board = initBoard 2 2, snake = [\<lparr>row = 0, col = 1, type = SNAKE\<rparr>], food = None,
         direction = RIGHT\<rparr>))) = Some (1, 0)
   \<and> uncaught (placeFood 2 2 (1/2)
        \<lparr>board = initBoard 2 2, snake = [\<lparr>row = 0, col = 1, type = SNAKE\<rparr>], food = None,
         direction = RIGHT\<rparr>) = None"
proof -
  let ?s = "\<lparr>board = initBoard 2 2, snake = [\<lparr>row = 0, col = 1, type = SNAKE\<rparr>], food = None,
       direction = RIGHT\<rparr>"
  have E: "emptyCells 2 2 (occupies [\<lparr>row = 0, col = 1, type = SNAKE\<rparr>]) = [(0, 0), (1, 0), (1, 1)]"
    by code_simp
  have D: "isDouble (1/2)"
    unfolding isDouble_def by (rule exI [of _ 1], rule exI [of _ 1073]) simp
  have L: "(1/2::real) < 1" by simp
  have b: "food ?s = None \<and> length (board ?s) = nat 2 \<and> (\<forall>rw \<in> set (board ?s). length rw = nat 2)"
    by code_simp
  from food_placement [OF D L, of ?s 2 2 "[]" "[]"] b
  have u: "uncaught (placeFood 2 2 (1/2) ?s) = None"
    and c: "choosesNearlyUniformly (1/2) [(0, 0), (1, 0), (1, 1)]
              (map_option (\<lambda>f. (row f, col f)) (food (state (placeFood 2 2 (1/2) ?s))))"
    by (simp_all add: E)
  let ?L = "[(0, 0), (1, 0), (1, 1)] :: (int \<times> int) list"
  let ?ch = "map_option (\<lambda>f. (row f, col f)) (food (state (placeFood 2 2 (1/2) ?s)))"
  from c have "\<forall>k < length ?L.
                 real k \<le> 1/2 * real (length ?L) * (1 - 1 / 2 ^ 53)
                 \<and> 1/2 * real (length ?L) * (1 + 1 / 2 ^ 53) < real k + 1 \<longrightarrow>
                 ?ch = Some (?L ! k)"
    unfolding choosesNearlyUniformly_def by blast
  from this [rule_format, of 1] have "?ch = Some (1, 0)" by simp
  then show ?thesis using u by simp
qed

section \<open>Claims about the path planner\<close>

text \<open>
  Claim C10. Whenever \<open>findShortestWayToFood\<close> returns a direction, the cell next to the
  head in that direction is inside the matrix and tagged \<open>EMPTY\<close> or \<open>FOOD\<close>, whatever
  the tag of the head's own cell is. This holds for every matrix, rectangular or not.
\<close>

theorem returned_step_is_passable:
  assumes "findShortestWayToFood brd (start # rest) fd = Inr (Some d)"
  shows "case neighbour (row start, col start) d of
           (r, c) \<Rightarrow>
             0 \<le> r \<and> r < int (length brd) \<and> 0 \<le> c \<and> c < int (length (hd brd))
             \<and> nat c < length (brd ! nat r)
             \<and> (type (brd ! nat r ! nat c) = EMPTY \<or> type (brd ! nat r ! nat c) = FOOD)"
proof -
  obtain path where p: "findPath brd (start # rest) fd = Inr (Some (path, d))"
    using assms unfolding findShortestWayToFood_Some by blast
  from findPath_correct [of brd start rest fd] p
  have w: "walkTo brd (row start, col start) (row fd, col fd) (map nkey path)"
    and l: "2 \<le> length path"
    and n: "map nkey path ! 1 = neighbour (row start, col start) d"
    by auto
  have "passable brd (map nkey path ! 1)"
    using walkTo_second [OF w] l by simp
  then have "passable brd (neighbour (row start, col start) d)" unfolding n .
  then show ?thesis
    by (cases "neighbour (row start, col start) d") (simp add: passable_iff)
qed

theorem returned_step_is_passable_witness:
  "findShortestWayToFood
      (getPathfindingBoard 5 5 [\<lparr>row = 2, col = 2, type = SNAKE\<rparr>] (Some \<lparr>row = 2, col = 4, type = FOOD\<rparr>))
      [\<lparr>row = 2, col = 2, type = SNAKE\<rparr>] \<lparr>row = 2, col = 4, type = FOOD\<rparr> = Inr (Some RIGHT)
   \<and> (type (getPathfindingBoard 5 5 [\<lparr>row = 2, col = 2, type = SNAKE\<rparr>]
               (Some \<lparr>row = 2, col = 4, type = FOOD\<rparr>) ! 2 ! 3) = EMPTY
      \<or> type (getPathfindingBoard 5 5 [\<lparr>row = 2, col = 2, type = SNAKE\<rparr>]
               (Some \<lparr>row = 2, col = 4, type = FOOD\<rparr>) ! 2 ! 3) = FOOD)"
proof -
  have e: "findShortestWayToFood
      (getPathfindingBoard 5 5 [\<lparr>row = 2, col = 2, type = SNAKE\<rparr>] (Some \<lparr>row = 2, col = 4, type = FOOD\<rparr>))
      [\<lparr>row = 2, col = 2, type = SNAKE\<rparr>] \<lparr>row = 2, col = 4, type = FOOD\<rparr> = Inr (Some RIGHT)"
    by code_simp
  from returned_step_is_passable [OF e] e show ?thesis
    by (simp add: numeral_2_eq_2 numeral_3_eq_3)
qed

text \<open>
  Claim C6. On a rectangular snapshot and for a non-empty snake,
  \<open>findShortestWayToFood\<close> returns \<open>null\<close> exactly when the head is on the food cell or
  no 4-connected walk through passable cells leads from the head to the food; and it
  returns: it never throws.
\<close>

theorem null_iff_at_food_or_unreachable:
  assumes "rectangular brd"
  shows "(findShortestWayToFood brd (start # rest) fd = Inr None \<longleftrightarrow>
           (row start, col start) = (row fd, col fd)
           \<or> \<not> (\<exists>q. walkTo brd (row start, col start) (row fd, col fd) q))
         \<and> (\<forall>e. findShortestWayToFood brd (start # rest) fd \<noteq> Inl e)"
proof -
  note F = findPath_correct [of brd start rest fd]
  have noerr: "\<forall>e. findPath brd (start # rest) fd \<noteq> Inl e" using F assms by auto
  have "findPath brd (start # rest) fd = Inr None \<longleftrightarrow>
           (row start, col start) = (row fd, col fd)
           \<or> \<not> (\<exists>q. walkTo brd (row start, col start) (row fd, col fd) q)"
  proof
    assume "findPath brd (start # rest) fd = Inr None"
    then show "(row start, col start) = (row fd, col fd)
           \<or> \<not> (\<exists>q. walkTo brd (row start, col start) (row fd, col fd) q)"
      using F by auto
  next
    assume a: "(row start, col start) = (row fd, col fd)
           \<or> \<not> (\<exists>q. walkTo brd (row start, col start) (row fd, col fd) q)"
    have "\<not> (\<exists>path d. findPath brd (start # rest) fd = Inr (Some (path, d)))"
    proof
      assume "\<exists>path d. findPath brd (start # rest) fd = Inr (Some (path, d))"
      then obtain path d where p: "findPath brd (start # rest) fd = Inr (Some (path, d))" by blast
      with F have "(row start, col start) \<noteq> (row fd, col fd)"
        "walkTo brd (row start, col start) (row fd, col fd) (map nkey path)" by auto
      with a show False by blast
    qed
    then show "findPath brd (start # rest) fd = Inr None" using F assms by auto
  qed
  then show ?thesis
    using noerr unfolding findShortestWayToFood_None findShortestWayToFood_Inl by simp
qed

theorem null_iff_at_food_or_unreachable_witness:
  "rectangular (getPathfindingBoard 3 3
       [\<lparr>row = 0, col = 0, type = SNAKE\<rparr>, \<lparr>row = 0, col = 1, type = SNAKE\<rparr>,
        \<lparr>row = 1, col = 1, type = SNAKE\<rparr>, \<lparr>row = 1, col = 0, type = SNAKE\<rparr>]
       (Some \<lparr>row = 2, col = 2, type = FOOD\<rparr>))
   \<and> findShortestWayToFood (getPathfindingBoard 3 3
       [\<lparr>row = 0, col = 0, type = SNAKE\<rparr>, \<lparr>row = 0, col = 1, type = SNAKE\<rparr>,
        \<lparr>row = 1, col = 1, type = SNAKE\<rparr>, \<lparr>row = 1, col = 0, type = SNAKE\<rparr>]
       (Some \<lparr>row = 2, col = 2, type = FOOD\<rparr>))
       [\<lparr>row = 0, col = 0, type = SNAKE\<rparr>, \<lparr>row = 0, col = 1, type = SNAKE\<rparr>,
        \<lparr>row = 1, col = 1, type = SNAKE\<rparr>, \<lparr>row = 1, col = 0, type = SNAKE\<rparr>]
       \<lparr>row = 2, col = 2, type = FOOD\<rparr> = Inr None
   \<and> \<not> (\<exists>q. walkTo (getPathfindingBoard 3 3
       [\<lparr>row = 0, col = 0, type = SNAKE\<rparr>, \<lparr>row = 0, col = 1, type = SNAKE\<rparr>,
        \<lparr>row = 1, col = 1, type = SNAKE\<rparr>, \<lparr>row = 1, col = 0, type = SNAKE\<rparr>]
       (Some \<lparr>row = 2, col = 2, type = FOOD\<rparr>)) (0, 0) (2, 2) q)"
proof -
  let ?snk = "[\<lparr>row = 0, col = 0, type = SNAKE\<rparr>, \<lparr>row = 0, col = 1, type = SNAKE\<rparr>,
        \<lparr>row = 1, col = 1, type = SNAKE\<rparr>, \<lparr>row = 1, col = 0, type = SNAKE\<rparr>]"
  let ?fd = "\<lparr>row = 2, col = 2, type = FOOD\<rparr>"
  let ?b = "getPathfindingBoard 3 3 ?snk (Some ?fd)"
  have r: "rectangular ?b" by code_simp
  have e: "findShortestWayToFood ?b ?snk ?fd = Inr None" by code_simp
  from null_iff_at_food_or_unreachable [OF r, of "\<lparr>row = 0, col = 0, type = SNAKE\<rparr>"
      "[\<lparr>row = 0, col = 1, type = SNAKE\<rparr>, \<lparr>row = 1, col = 1, type = SNAKE\<rparr>, \<lparr>row = 1, col = 0, type = SNAKE\<rparr>]" ?fd]
  show ?thesis using r e by simp
qed

text \<open>
  Claim C1. On a rectangular snapshot, when some 4-connected passable path of at least
  one step leads from the head to the food (a path visits no cell twice, so the head
  is not on the food), \<open>findShortestWayToFood\<close> returns a direction \<open>d\<close>, read from a path
  that is itself a passable walk from the head to the food, whose second cell is the
  cell next to the head in direction \<open>d\<close>, and that is no longer than any passable walk
  from the head to the food: its length is the shortest-path length of the snapshot.
\<close>

theorem first_step_on_shortest_path:
  assumes "rectangular brd"
    and "walkTo brd (row start, col start) (row fd, col fd) q"
    and "distinct q" and "2 \<le> length q"
  shows "\<exists>path d.
           findShortestWayToFood brd (start # rest) fd = Inr (Some d)
           \<and> findPath brd (start # rest) fd = Inr (Some (path, d))
           \<and> walkTo brd (row start, col start) (row fd, col fd) (map nkey path)
           \<and> 2 \<le> length path
           \<and> map nkey path ! 1 = neighbour (row start, col start) d
           \<and> (\<forall>q'. walkTo brd (row start, col start) (row fd, col fd) q' \<longrightarrow>
                  length path \<le> length q')"
proof -
  have ne: "(row start, col start) \<noteq> (row fd, col fd)"
  proof -
    obtain a b rest' where q: "q = a # b # rest'"
      using assms(4) by (cases q; cases "tl q") auto
    have "hd q \<noteq> last q" using assms(3) unfolding q by auto
    then show ?thesis using assms(2) unfolding walkTo_def by simp
  qed
  from findPath_correct [of brd start rest fd] assms(1,2) ne
  obtain path d where p: "findPath brd (start # rest) fd = Inr (Some (path, d))"
    "walkTo brd (row start, col start) (row fd, col fd) (map nkey path)"
    "\<forall>q'. walkTo brd (row start, col start) (row fd, col fd) q' \<longrightarrow> length path \<le> length q'"
    "2 \<le> length path" "map nkey path ! 1 = neighbour (row start, col start) d"
    by auto
  have "findShortestWayToFood brd (start # rest) fd = Inr (Some d)"
    unfolding findShortestWayToFood_Some using p(1) by blast
  with p show ?thesis by blast
qed

theorem first_step_on_shortest_path_witness:
  "\<exists>path. findPath (getPathfindingBoard 3 3
       [\<lparr>row = 0, col = 0, type = SNAKE\<rparr>, \<lparr>row = 0, col = 1, type = SNAKE\<rparr>,
        \<lparr>row = 1, col = 1, type = SNAKE\<rparr>] (Some \<lparr>row = 0, col = 2, type = FOOD\<rparr>))
       [\<lparr>row = 0, col = 0, type = SNAKE\<rparr>, \<lparr>row = 0, col = 1, type = SNAKE\<rparr>,
        \<lparr>row = 1, col = 1, type = SNAKE\<rparr>] \<lparr>row = 0, col = 2, type = FOOD\<rparr>
       = Inr (Some (path, DOWN))
     \<and> length path = 7
     \<and> map nkey path ! 1 = (1, 0)
     \<and> \<not> (\<exists>q'. walkTo (getPathfindingBoard 3 3
       [\<lparr>row = 0, col = 0, type = SNAKE\<rparr>, \<lparr>row = 0, col = 1, type = SNAKE\<rparr>,
        \<lparr>row = 1, col = 1, type = SNAKE\<rparr>] (Some \<lparr>row = 0, col = 2, type = FOOD\<rparr>)) (0, 0) (0, 2) q'
          \<and> length q' < 7)"
proof -
  let ?h = "\<lparr>row = 0, col = 0, type = SNAKE\<rparr>"
  let ?rest = "[\<lparr>row = 0, col = 1, type = SNAKE\<rparr>, \<lparr>row = 1, col = 1, type = SNAKE\<rparr>]"
  let ?fd = "\<lparr>row = 0, col = 2, type = FOOD\<rparr>"
  let ?b = "getPathfindingBoard 3 3 (?h # ?rest) (Some ?fd)"
  let ?q = "[(0, 0), (1, 0), (2, 0), (2, 1), (2, 2), (1, 2), (0, 2)] :: (int \<times> int) list"
  have r: "rectangular ?b" by code_simp
  have w: "walkTo ?b (row ?h, col ?h) (row ?fd, col ?fd) ?q" by code_simp
  have d: "distinct ?q" by simp
  have l: "2 \<le> length ?q" by simp
  have e: "(case findPath ?b (?h # ?rest) ?fd of
             Inr (Some (p, d)) \<Rightarrow> Some (length p, d) | _ \<Rightarrow> None) = Some (7, DOWN)"
    by code_simp
  from first_step_on_shortest_path [OF r w d l, of ?rest]
  obtain path dir where p: "findPath ?b (?h # ?rest) ?fd = Inr (Some (path, dir))"
    "map nkey path ! 1 = neighbour (row ?h, col ?h) dir"
    "\<forall>q'. walkTo ?b (row ?h, col ?h) (row ?fd, col ?fd) q' \<longrightarrow> length path \<le> length q'"
    by blast
  have v: "length path = 7" "dir = DOWN" using e unfolding p(1) by simp_all
  have "\<not> (\<exists>q'. walkTo ?b (0, 0) (0, 2) q' \<and> length q' < 7)"
    using p(3) v(1) by force
  moreover have "map nkey path ! 1 = (1, 0)" using p(2) v(2) by simp
  ultimately show ?thesis using p(1) v by auto
qed

section \<open>The empty body and the straight-line scenario\<close>

text \<open>
  Claim C8 says that an empty body makes the step and the planner fail with a
  precondition violation. The source guards the case instead: at the empty body none
  of the three functions throws.
\<close>

theorem empty_body_counterexample:
  "findShortestWayToFood [] [] \<lparr>row = 0, col = 0, type = FOOD\<rparr> = Inr None
   \<and> move 5 5 \<lparr>board = initBoard 5 5, snake = [], food = None, direction = RIGHT\<rparr>
       = \<lparr>console = [], uncaught = None,
          state = \<lparr>board = initBoard 5 5, snake = [], food = None, direction = RIGHT\<rparr>\<rparr>
   \<and> moveSnake None [] RIGHT PLAYER_ONE = Some []"
  by (simp add: findShortestWayToFood_def findPath_def move_def moveSnake_def)

text \<open>
  Claim C8, amended. With an empty body the three functions return at once and change
  nothing: \<open>findShortestWayToFood\<close> returns \<open>null\<close>, \<open>move\<close> logs nothing and leaves the
  state as it is, and \<open>moveSnake\<close> returns the empty body.
\<close>

theorem empty_body_is_a_no_op:
  "findShortestWayToFood brd [] fd = Inr None
   \<and> move I J (s\<lparr>snake := []\<rparr>) = \<lparr>console = [], uncaught = None, state = s\<lparr>snake := []\<rparr>\<rparr>
   \<and> moveSnake fd2 [] d t = Some []"
  by (simp add: findShortestWayToFood_def findPath_def move_def moveSnake_def)

text \<open>
  Claim C9. On the 5 by 5 snapshot with a one-cell snake at (2, 2), food at (2, 4) and
  nothing else, \<open>findShortestWayToFood\<close> returns \<open>RIGHT\<close>; one \<open>move\<close> heading right logs
  nothing and throws nothing, the body is the single cell (2, 3), as long as before, and
  the food is still at (2, 4).
\<close>

theorem scenario_straight_to_food:
  "findShortestWayToFood
      (getPathfindingBoard 5 5 [\<lparr>row = 2, col = 2, type = SNAKE\<rparr>] (Some \<lparr>row = 2, col = 4, type = FOOD\<rparr>))
      [\<lparr>row = 2, col = 2, type = SNAKE\<rparr>] \<lparr>row = 2, col = 4, type = FOOD\<rparr> = Inr (Some RIGHT)
   \<and> console (move 5 5 \<lparr>board = getPathfindingBoard 5 5 [\<lparr>row = 2, col = 2, type = SNAKE\<rparr>]
                                   (Some \<lparr>row = 2, col = 4, type = FOOD\<rparr>),
                        snake = [\<lparr>row = 2, col = 2, type = SNAKE\<rparr>],
                        food = Some \<lparr>row = 2, col = 4, type = FOOD\<rparr>, direction = RIGHT\<rparr>) = []
   \<and> uncaught (move 5 5 \<lparr>board = getPathfindingBoard 5 5 [\<lparr>row = 2, col = 2, type = SNAKE\<rparr>]
                                   (Some \<lparr>row = 2, col = 4, type = FOOD\<rparr>),
                        snake = [\<lparr>row = 2, col = 2, type = SNAKE\<rparr>],
                        food = Some \<lparr>row = 2, col = 4, type = FOOD\<rparr>, direction = RIGHT\<rparr>) = None
   \<and> snake (state (move 5 5 \<lparr>board = getPathfindingBoard 5 5 [\<lparr>row = 2, col = 2, type = SNAKE\<rparr>]
                                   (Some \<lparr>row = 2, col = 4, type = FOOD\<rparr>),
                        snake = [\<lparr>row = 2, col = 2, type = SNAKE\<rparr>],
                        food = Some \<lparr>row = 2, col = 4, type = FOOD\<rparr>, direction = RIGHT\<rparr>))
       = [\<lparr>row = 2, col = 3, type = SNAKE\<rparr>]
   \<and> food (state (move 5 5 \<lparr>board = getPathfindingBoard 5 5 [\<lparr>row = 2, col = 2, type = SNAKE\<rparr>]
                                   (Some \<lparr>row = 2, col = 4, type = FOOD\<rparr>),
                        snake = [\<lparr>row = 2, col = 2, type = SNAKE\<rparr>],
                        food = Some \<lparr>row = 2, col = 4, type = FOOD\<rparr>, direction = RIGHT\<rparr>))
       = Some \<lparr>row = 2, col = 4, type = FOOD\<rparr>"
  by code_simp

end
